theory Spec2Isabelle
  imports Complex_Main
begin

section \<open>Deferred localisation of report strings (lighthouse-core/lib/i18n.js)\<close>

text \<open>
  A shallow embedding of \<^verbatim>\<open>lighthouse-core/lib/i18n.js\<close>. The module keeps two
  module-level variables (\<^verbatim>\<open>locale\<close> and the map \<^verbatim>\<open>formattedStringUsages\<close>);
  they are the fields of the record \<open>state\<close>, passed to and returned from every
  operation that touches them. A \<^verbatim>\<open>throw\<close> is the \<open>Inl\<close> branch of a sum.
  The libraries the module requires (\<^verbatim>\<open>path\<close>, \<^verbatim>\<open>intl-messageformat\<close>,
  \<^verbatim>\<open>intl-messageformat-parser\<close>, \<^verbatim>\<open>./locales\<close>) are the fields of the
  record \<open>env\<close>: every theorem holds for whatever they compute.

  Conventions of the embedding:
  \<^item> a JavaScript string is a \<open>string\<close>, one \<open>char\<close> per code unit (code units
    above 255, among them the line terminators U+2028 and U+2029, are outside it);
  \<^item> a JavaScript number is a \<open>jsnum\<close>: a real, NaN or an infinity, and arithmetic
    on it is exact. The machine rounds each result to a nearest double; the
    properties of the preprocessor are stated for Numbers for which, as is proved
    with them, that makes no difference. The sign of zero is outside the embedding;
  \<^item> a plain object is the list of its own enumerable properties in the order
    \<^verbatim>\<open>Object.keys\<close> gives them; properties inherited from
    \<^verbatim>\<open>Object.prototype\<close> appear only where the source asks for them
    (the \<^verbatim>\<open>in\<close> operator), and the accessor \<^verbatim>\<open>__proto__\<close> is outside the embedding;
  \<^item> a report is a tree: no object is reachable along two paths, and the report
    shares no object with the usage registry. The section on the store lifts this
    convention: there objects live at addresses and can be shared.
\<close>

subsection \<open>JavaScript values\<close>

datatype jsnum = Fin real | NaN | PosInf | NegInf

datatype jsval =
    JUndefined
  | JNull
  | JBool bool
  | JNum jsnum
  | JStr string
  | JArr "jsval list"
  | JObj "(string \<times> jsval) list"

type_synonym obj = "(string \<times> jsval) list"

datatype error =
    Error string
  | TypeError
  | SyntaxError string
  | FormatError string

subsection \<open>Decimal numerals and property keys\<close>

definition isDigit :: "char \<Rightarrow> bool" where
  "isDigit c = ((48::nat) \<le> of_char c \<and> of_char c \<le> (57::nat))"

definition digitChar :: "nat \<Rightarrow> char" where
  "digitChar d = char_of (48 + d)"

definition digitVal :: "char \<Rightarrow> nat" where
  "digitVal c = of_char c - (48::nat)"

text \<open>\<^verbatim>\<open>String(n)\<close> for a non-negative integer \<open>n\<close>, as the template literal
  \<^verbatim>\<open>`${key}#${keyUsages.length - 1}`\<close> prints it.\<close>

function showNat :: "nat \<Rightarrow> string" where
  "showNat n = (if n < 10 then [digitChar n] else showNat (n div 10) @ [digitChar (n mod 10)])"
  by pat_completeness auto
termination
  by (relation "measure (\<lambda>n. n)") auto

declare showNat.simps [simp del]

text \<open>The number a string of decimal digits denotes.\<close>

definition parseNat :: "string \<Rightarrow> nat" where
  "parseNat s = foldl (\<lambda>acc c. 10 * acc + digitVal c) 0 s"

text \<open>An array index in the sense of ECMAScript: the canonical decimal numeral of an
  integer below \<open>2^32 - 1\<close>. Such keys come first, in ascending order, when the own
  properties of an object are enumerated.\<close>

definition isArrayIndex :: "string \<Rightarrow> bool" where
  "isArrayIndex s = (s \<noteq> [] \<and> list_all isDigit s \<and> showNat (parseNat s) = s
      \<and> parseNat s < 4294967295)"

text \<open>\<^verbatim>\<open>xs[s]\<close> for an array \<open>xs\<close> and a string \<open>s\<close> of decimal digits: the
  element there is when \<open>s\<close> is the canonical numeral of an index below the length,
  and \<^verbatim>\<open>undefined\<close> (\<open>None\<close>) otherwise.\<close>

definition arrayGet :: "'a list \<Rightarrow> string \<Rightarrow> 'a option" where
  "arrayGet xs s =
     (let i = parseNat s in
      if showNat i = s \<and> i < length xs then Some (xs ! i) else None)"

subsection \<open>Own properties of plain objects\<close>

text \<open>\<^verbatim>\<open>o[k]\<close> on own properties.\<close>

definition objGet :: "(string \<times> 'v) list \<Rightarrow> string \<Rightarrow> 'v option" where
  "objGet ob k = map_of ob k"

text \<open>Where a new own property is placed in the enumeration order.\<close>

fun objInsert :: "string \<Rightarrow> 'v \<Rightarrow> (string \<times> 'v) list \<Rightarrow> (string \<times> 'v) list" where
  "objInsert k v [] = [(k, v)]"
| "objInsert k v ((k', v') # rest) =
     (if isArrayIndex k \<and> (\<not> isArrayIndex k' \<or> parseNat k < parseNat k')
      then (k, v) # (k', v') # rest
      else (k', v') # objInsert k v rest)"

text \<open>\<^verbatim>\<open>o[k] = v\<close>: an existing property keeps its place.\<close>

definition objSet :: "(string \<times> 'v) list \<Rightarrow> string \<Rightarrow> 'v \<Rightarrow> (string \<times> 'v) list" where
  "objSet ob k v =
     (if k \<in> fst ` set ob then map (\<lambda>(k', v'). if k' = k then (k', v) else (k', v')) ob
      else objInsert k v ob)"


text \<open>\<^verbatim>\<open>k in o\<close> for a plain object \<open>o\<close>: own properties and those inherited from
  \<^verbatim>\<open>Object.prototype\<close>.\<close>

definition objectPrototypeKeys :: "string list" where
  "objectPrototypeKeys =
     [''constructor'', ''__defineGetter__'', ''__defineSetter__'', ''hasOwnProperty'',
      ''__lookupGetter__'', ''__lookupSetter__'', ''isPrototypeOf'', ''propertyIsEnumerable'',
      ''toString'', ''valueOf'', ''__proto__'', ''toLocaleString'']"

definition objIn :: "string \<Rightarrow> (string \<times> 'v) list \<Rightarrow> bool" where
  "objIn k ob = (k \<in> fst ` set ob \<or> k \<in> set objectPrototypeKeys)"

text \<open>An object spread \<^verbatim>\<open>{...a, ...b}\<close>: the properties of \<open>a\<close>, then those of
  \<open>b\<close>, defined one by one on a new object.\<close>

definition objSpread :: "(string \<times> 'v) list \<Rightarrow> (string \<times> 'v) list \<Rightarrow> (string \<times> 'v) list" where
  "objSpread a b = foldl (\<lambda>m (k, v). objSet m k v) [] (a @ b)"

subsection \<open>Numbers\<close>

text \<open>\<open>x / c\<close> and \<open>x * c\<close> for a positive constant \<open>c\<close>, computed exactly, and
  \<^verbatim>\<open>Math.round\<close> (the nearest integer, a tie going up).\<close>

definition numDiv :: "jsnum \<Rightarrow> real \<Rightarrow> jsnum" where
  "numDiv x c = (case x of Fin r \<Rightarrow> Fin (r / c) | NaN \<Rightarrow> NaN | PosInf \<Rightarrow> PosInf | NegInf \<Rightarrow> NegInf)"

definition numMul :: "jsnum \<Rightarrow> real \<Rightarrow> jsnum" where
  "numMul x c = (case x of Fin r \<Rightarrow> Fin (r * c) | NaN \<Rightarrow> NaN | PosInf \<Rightarrow> PosInf | NegInf \<Rightarrow> NegInf)"

definition mathRound :: "jsnum \<Rightarrow> jsnum" where
  "mathRound x = (case x of Fin r \<Rightarrow> Fin (of_int \<lfloor>r + 1 / 2\<rfloor>) | NaN \<Rightarrow> NaN
      | PosInf \<Rightarrow> PosInf | NegInf \<Rightarrow> NegInf)"

subsection \<open>The required libraries\<close>

text \<open>What \<^verbatim>\<open>MessageParser.parse(msg).elements\<close> holds, as far as the module reads
  it: a text element, or an argument element with its \<^verbatim>\<open>id\<close> and its
  \<^verbatim>\<open>format\<close> (absent for a plain argument such as \<^verbatim>\<open>{name}\<close>), of which only
  \<^verbatim>\<open>style\<close> is read (absent for a plural or a select).\<close>

datatype argFormat = ArgFormat (formatStyle: "string option")

datatype element =
    MessageTextElement string
  | ArgumentElement (elId: string) (elFormat: "argFormat option")

datatype localeEntry = LocaleEntry (message: string)

record env =
  path_relative :: "string \<Rightarrow> string"
  i18n_filename :: string
  MessageFormat_defaultLocale :: string
  MessageParser_parse :: "string \<Rightarrow> error + element list"
  MessageFormat_format :: "string \<Rightarrow> string \<Rightarrow> obj option \<Rightarrow> error + string"
  LOCALES :: "(string \<times> (string \<times> localeEntry) list) list"
  ToNumber_other :: "jsval \<Rightarrow> jsnum"

text \<open>
  \<^item> \<open>path_relative E f\<close> is \<^verbatim>\<open>path.relative(LH_ROOT, f)\<close>;
  \<^item> \<open>i18n_filename E\<close> is \<^verbatim>\<open>__filename\<close>;
  \<^item> \<open>MessageParser_parse E msg\<close> is \<^verbatim>\<open>MessageParser.parse(msg).elements\<close>,
    or the error the parser throws;
  \<^item> \<open>MessageFormat_format E t l vs\<close> is
    \<^verbatim>\<open>new MessageFormat(t, l, formats).format(vs)\<close>, or the error either step throws;
  \<^item> \<open>MessageFormat_defaultLocale E\<close> is \<^verbatim>\<open>MessageFormat.defaultLocale\<close>;
  \<^item> \<open>LOCALES E\<close> is \<^verbatim>\<open>require('./locales')\<close>: an object of objects of
    \<^verbatim>\<open>{message: string}\<close>;
  \<^item> \<open>ToNumber_other E v\<close> is the number the language converts \<open>v\<close> to when
    \<open>v\<close> is a string, an array or an object.
\<close>

subsection \<open>Module state\<close>

text \<open>A \<^verbatim>\<open>StringUsage\<close>. The recorder stores the values it is handed and looks at
  nothing of them, so their type is left open. In a \<open>state\<close> they are a
  \<^verbatim>\<open>Record<string, *>\<close>, as the source declares them for
  \<open>preprocessMessageValues\<close>, or absent (\<open>None\<close>).\<close>

record 'v stringUsage =
  usage_key :: string
  usage_template :: string
  usage_values :: 'v

record 'v moduleState =
  currentLocale :: string
  formattedStringUsages :: "string \<rightharpoonup> 'v stringUsage list"

type_synonym state = "(obj option) moduleState"

definition initialState :: "env \<Rightarrow> 'v moduleState" where
  "initialState E = \<lparr>currentLocale = MessageFormat_defaultLocale E, formattedStringUsages = Map.empty\<rparr>"

definition UIStrings :: "(string \<times> string) list" where
  "UIStrings =
     [(''ms'', ''{timeInMs, number, milliseconds}'' @ [CHR 0xA0] @ ''ms''),
      (''columnURL'', ''URL''),
      (''columnSize'', ''Size (KB)''),
      (''columnWastedTime'', ''Potential Savings (ms)'')]"

subsection \<open>preprocessMessageValues\<close>

text \<open>\<^verbatim>\<open>JSON.parse(JSON.stringify(v))\<close>: a property holding \<^verbatim>\<open>undefined\<close> is
  dropped, an array element holding \<^verbatim>\<open>undefined\<close> becomes \<^verbatim>\<open>null\<close>, and so does
  a number that is not finite.\<close>

fun jsonClone :: "jsval \<Rightarrow> jsval" where
  "jsonClone (JNum n) = (case n of Fin x \<Rightarrow> JNum (Fin x) | _ \<Rightarrow> JNull)"
| "jsonClone (JArr xs) = JArr (map (\<lambda>v. if v = JUndefined then JNull else jsonClone v) xs)"
| "jsonClone (JObj ob) =
     JObj (map (\<lambda>(k, v). (k, jsonClone v)) (filter (\<lambda>(k, v). v \<noteq> JUndefined) ob))"
| "jsonClone v = v"

definition jsonCloneObj :: "obj \<Rightarrow> obj" where
  "jsonCloneObj ob = map (\<lambda>(k, v). (k, jsonClone v)) (filter (\<lambda>(k, v). v \<noteq> JUndefined) ob)"

text \<open>The number an arithmetic operator makes of \<^verbatim>\<open>o[k]\<close>; \<open>None\<close> is a property
  that is not there (\<^verbatim>\<open>undefined\<close>).\<close>

definition toNumber :: "env \<Rightarrow> jsval option \<Rightarrow> jsnum" where
  "toNumber E v =
     (case v of
        None \<Rightarrow> NaN
      | Some JUndefined \<Rightarrow> NaN
      | Some JNull \<Rightarrow> Fin 0
      | Some (JBool b) \<Rightarrow> Fin (if b then 1 else 0)
      | Some (JNum n) \<Rightarrow> n
      | Some w \<Rightarrow> ToNumber_other E w)"

text \<open>\<^verbatim>\<open>el.format && el.format.style === s\<close>\<close>

definition hasStyle :: "string \<Rightarrow> element \<Rightarrow> bool" where
  "hasStyle s el =
     (case el of
        MessageTextElement _ \<Rightarrow> False
      | ArgumentElement _ None \<Rightarrow> False
      | ArgumentElement _ (Some f) \<Rightarrow> formatStyle f = Some s)"

definition roundMilliseconds :: "env \<Rightarrow> obj \<Rightarrow> element \<Rightarrow> obj" where
  "roundMilliseconds E clonedValues el =
     objSet clonedValues (elId el)
       (JNum (numMul (mathRound (numDiv (toNumber E (objGet clonedValues (elId el))) 10)) 10))"

definition bytesToKB :: "env \<Rightarrow> obj \<Rightarrow> element \<Rightarrow> obj" where
  "bytesToKB E clonedValues el =
     objSet clonedValues (elId el)
       (JNum (numDiv (toNumber E (objGet clonedValues (elId el))) 1024))"

definition preprocessMessageValues :: "env \<Rightarrow> string \<Rightarrow> obj option \<Rightarrow> error + obj option" where
  "preprocessMessageValues E msg vals =
     (case vals of
        None \<Rightarrow> Inr None
      | Some vs \<Rightarrow>
          (let clonedValues = jsonCloneObj vs in
           case MessageParser_parse E msg of
             Inl e \<Rightarrow> Inl e
           | Inr elements \<Rightarrow>
               (let c1 = foldl (roundMilliseconds E) clonedValues
                           (filter (hasStyle ''milliseconds'') elements);
                    c2 = foldl (bytesToKB E) c1 (filter (hasStyle ''bytes'') elements)
                in Inr (Some c2))))"

subsection \<open>formatTemplate\<close>

record formatted =
  res_message :: string
  res_template :: string

definition formatTemplate ::
  "env \<Rightarrow> string \<Rightarrow> string \<Rightarrow> string \<Rightarrow> obj option \<Rightarrow> error + formatted" where
  "formatTemplate E locale key template vals =
     (let localeTemplates = (case objGet (LOCALES E) locale of None \<Rightarrow> [] | Some lt \<Rightarrow> lt);
          localeTemplate = (case objGet localeTemplates key of None \<Rightarrow> None
                            | Some entry \<Rightarrow> Some (message entry));
          templateForMessageFormat =
            (case localeTemplate of None \<Rightarrow> template
             | Some m \<Rightarrow> if m = [] then template else m);
          localeForMessageFormat = (if locale = ''en-XA'' then ''de-DE'' else locale)
      in case preprocessMessageValues E template vals of
           Inl e \<Rightarrow> Inl e
         | Inr valuesForMessageFormat \<Rightarrow>
             (case MessageFormat_format E templateForMessageFormat localeForMessageFormat
                     valuesForMessageFormat of
                Inl e \<Rightarrow> Inl e
              | Inr msg \<Rightarrow> Inr \<lparr>res_message = msg, res_template = templateForMessageFormat\<rparr>))"

subsection \<open>createStringFormatter and setLocale\<close>

definition formatFn ::
  "env \<Rightarrow> string \<Rightarrow> (string \<times> string) list \<Rightarrow> string \<Rightarrow> 'v \<Rightarrow> 'v moduleState
     \<Rightarrow> (error + string) \<times> 'v moduleState" where
  "formatFn E filename mergedStrings template vals st =
     (case find (\<lambda>k. objGet mergedStrings k = Some template) (map fst mergedStrings) of
        None \<Rightarrow> (Inl (Error (''Could not locate: '' @ template)), st)
      | Some keyname \<Rightarrow>
          if keyname = [] then (Inl (Error (''Could not locate: '' @ template)), st)
          else
            (let filenameToLookup = (if objIn keyname UIStrings then i18n_filename E else filename);
                 key = path_relative E filenameToLookup @ ''!#'' @ keyname;
                 keyUsages = (case formattedStringUsages st key of None \<Rightarrow> [] | Some us \<Rightarrow> us)
                             @ [\<lparr>usage_key = key, usage_template = template, usage_values = vals\<rparr>]
             in (Inr (key @ ''#'' @ showNat (length keyUsages - 1)),
                 st\<lparr>formattedStringUsages := (formattedStringUsages st)(key \<mapsto> keyUsages)\<rparr>)))"

definition createStringFormatter ::
  "env \<Rightarrow> string \<Rightarrow> (string \<times> string) list \<Rightarrow> string \<Rightarrow> 'v \<Rightarrow> 'v moduleState
     \<Rightarrow> (error + string) \<times> 'v moduleState" where
  "createStringFormatter E filename fileStrings = formatFn E filename (objSpread UIStrings fileStrings)"

text \<open>\<open>None\<close> is \<^verbatim>\<open>null\<close> or no argument; the empty string is falsy as well.\<close>

definition setLocale :: "string option \<Rightarrow> 'v moduleState \<Rightarrow> 'v moduleState" where
  "setLocale newLocale st =
     (case newLocale of
        None \<Rightarrow> st
      | Some l \<Rightarrow> if l = [] then st else st\<lparr>currentLocale := l\<rparr>)"

subsection \<open>replaceLocaleStringReferences\<close>

definition isLineTerminator :: "char \<Rightarrow> bool" where
  "isLineTerminator c = (c = CHR 0x0A \<or> c = CHR 0x0D)"

text \<open>\<^verbatim>\<open>value.match(/(.*)#(\d+)$/)\<close>: the two groups of the leftmost match. The
  digits are the longest run of digits the string ends in, a \<^verbatim>\<open>#\<close> stands before
  them, and the first group runs back from there to the last line terminator (which
  \<^verbatim>\<open>.\<close> does not match) or to the start of the string.\<close>

definition matchUsage :: "string \<Rightarrow> (string \<times> string) option" where
  "matchUsage v =
     (let ds = rev (takeWhile isDigit (rev v));
          front = rev (dropWhile isDigit (rev v))
      in if ds = [] \<or> front = [] \<or> last front \<noteq> CHR ''#'' then None
         else Some (rev (takeWhile (\<lambda>c. \<not> isLineTerminator c) (rev (butlast front))), ds))"

fun hasBangHash :: "string \<Rightarrow> bool" where
  "hasBangHash (a # b # cs) = ((a = CHR ''!'' \<and> b = CHR ''#'') \<or> hasBangHash (b # cs))"
| "hasBangHash _ = False"

text \<open>\<^verbatim>\<open>/.*!#.*#\d+$/.test(value)\<close>: as above, with \<^verbatim>\<open>!#\<close> somewhere in what the
  first group would hold.\<close>

definition testToken :: "string \<Rightarrow> bool" where
  "testToken v = (case matchUsage v of None \<Rightarrow> False | Some (k, ds) \<Rightarrow> hasBangHash k)"

record 'v occurrence =
  occ_values :: 'v
  occ_path :: "string list"

record 'v logRecord =
  log_template :: string
  log_occurrences :: "'v occurrence list"

type_synonym localeLog = "(string \<times> (obj option) logRecord) list"

text \<open>The branch of the loop body taken for a string that passes the test.\<close>

definition replaceToken ::
  "env \<Rightarrow> state \<Rightarrow> string \<Rightarrow> string \<Rightarrow> localeLog \<Rightarrow> string list
     \<Rightarrow> error + (jsval \<times> localeLog)" where
  "replaceToken E st locale v lg currentPath =
     (case matchUsage v of
        None \<Rightarrow> Inl TypeError
      | Some (templateKey, usageIndex) \<Rightarrow>
          (let templateLogRecord = objGet lg templateKey;
               usages = (case formattedStringUsages st templateKey of None \<Rightarrow> [] | Some us \<Rightarrow> us)
           in case arrayGet usages usageIndex of
                None \<Rightarrow> Inl TypeError
              | Some usage \<Rightarrow>
                  (let occurrences =
                         (case templateLogRecord of None \<Rightarrow> [] | Some r \<Rightarrow> log_occurrences r)
                         @ [\<lparr>occ_values = usage_values usage, occ_path = currentPath\<rparr>]
                   in case formatTemplate E locale templateKey (usage_template usage)
                             (usage_values usage) of
                        Inl e \<Rightarrow> Inl e
                      | Inr res \<Rightarrow>
                          Inr (JStr (res_message res),
                               objSet lg templateKey
                                 \<lparr>log_template = res_template res,
                                  log_occurrences = occurrences\<rparr>))))"

definition isTokenString :: "jsval \<Rightarrow> bool" where
  "isTokenString v = (case v of JStr s \<Rightarrow> testToken s | _ \<Rightarrow> False)"

definition tokenText :: "jsval \<Rightarrow> string" where
  "tokenText v = (case v of JStr s \<Rightarrow> s | _ \<Rightarrow> [])"

text \<open>\<open>replaceInObject\<close> is the inner function of the source; \<open>replaceInEntries\<close> is
  its \<^verbatim>\<open>for\<close> loop over the entries of an object and \<open>replaceInElems\<close> the same
  loop over the entries of an array, whose keys are the numerals of the indices. The
  value written back by \<^verbatim>\<open>obj[key] = message\<close> takes the place of the old one.\<close>

fun replaceInObject ::
  "env \<Rightarrow> state \<Rightarrow> string \<Rightarrow> jsval \<Rightarrow> localeLog \<Rightarrow> string list \<Rightarrow> error + (jsval \<times> localeLog)"
and replaceInEntries ::
  "env \<Rightarrow> state \<Rightarrow> string \<Rightarrow> (string \<times> jsval) list \<Rightarrow> localeLog \<Rightarrow> string list
     \<Rightarrow> error + ((string \<times> jsval) list \<times> localeLog)"
and replaceInElems ::
  "env \<Rightarrow> state \<Rightarrow> string \<Rightarrow> nat \<Rightarrow> jsval list \<Rightarrow> localeLog \<Rightarrow> string list
     \<Rightarrow> error + (jsval list \<times> localeLog)"
where
  "replaceInObject E st locale (JObj ob) lg path =
     (case replaceInEntries E st locale ob lg path of
        Inl e \<Rightarrow> Inl e
      | Inr (ob', lg') \<Rightarrow> Inr (JObj ob', lg'))"
| "replaceInObject E st locale (JArr xs) lg path =
     (case replaceInElems E st locale 0 xs lg path of
        Inl e \<Rightarrow> Inl e
      | Inr (xs', lg') \<Rightarrow> Inr (JArr xs', lg'))"
| "replaceInObject E st locale v lg path = Inr (v, lg)"
| "replaceInEntries E st locale [] lg path = Inr ([], lg)"
| "replaceInEntries E st locale ((key, v) # rest) lg path =
     (case (if isTokenString v then replaceToken E st locale (tokenText v) lg (path @ [key])
            else replaceInObject E st locale v lg (path @ [key])) of
        Inl e \<Rightarrow> Inl e
      | Inr (v', lg') \<Rightarrow>
          (case replaceInEntries E st locale rest lg' path of
             Inl e \<Rightarrow> Inl e
           | Inr (rest', lg'') \<Rightarrow> Inr ((key, v') # rest', lg'')))"
| "replaceInElems E st locale i [] lg path = Inr ([], lg)"
| "replaceInElems E st locale i (v # rest) lg path =
     (case (if isTokenString v then replaceToken E st locale (tokenText v) lg (path @ [showNat i])
            else replaceInObject E st locale v lg (path @ [showNat i])) of
        Inl e \<Rightarrow> Inl e
      | Inr (v', lg') \<Rightarrow>
          (case replaceInElems E st locale (Suc i) rest lg' path of
             Inl e \<Rightarrow> Inl e
           | Inr (rest', lg'') \<Rightarrow> Inr (v' # rest', lg'')))"

text \<open>The audit log as the object the source builds.\<close>

definition occurrenceToJs :: "(obj option) occurrence \<Rightarrow> jsval" where
  "occurrenceToJs oc =
     JObj [(''values'', (case occ_values oc of None \<Rightarrow> JUndefined | Some vs \<Rightarrow> JObj vs)),
           (''path'', JArr (map JStr (occ_path oc)))]"

definition logRecordToJs :: "(obj option) logRecord \<Rightarrow> jsval" where
  "logRecordToJs r =
     JObj [(''template'', JStr (log_template r)),
           (''occurrences'', JArr (map occurrenceToJs (log_occurrences r)))]"

definition logToJs :: "localeLog \<Rightarrow> jsval" where
  "logToJs lg = JObj (map (\<lambda>(k, r). (k, logRecordToJs r)) lg)"

text \<open>\<open>lhr\<close> is an \<^verbatim>\<open>LH.Result\<close>, a plain object. The function reads the module
  state and assigns to none of its variables; the state it leaves is returned with
  the result.\<close>

definition replaceLocaleStringReferences ::
  "env \<Rightarrow> obj \<Rightarrow> string \<Rightarrow> state \<Rightarrow> (error + obj) \<times> state" where
  "replaceLocaleStringReferences E lhr locale st =
     (case replaceInEntries E st locale lhr [] [] of
        Inl e \<Rightarrow> (Inl e, st)
      | Inr (lhr', lg) \<Rightarrow> (Inr (objSet lhr' ''localeLog'' (logToJs lg)), st))"

section \<open>The resolver over a store\<close>

text \<open>
  The resolver writes into the objects it is handed, and an occurrence of the audit
  log holds the values object of its Usage Record itself, not a copy of it. What a
  pass does to an object that can be reached along more than one path is not a
  question about trees, so this section gives the resolver a second time, over a
  store: an object lives at an address, a value is a primitive or the address of an
  object, and a Usage Record holds the address of its values object (the registry is
  a \<open>storeState\<close>). The store is the list of the objects made so far, and the
  address of an object is its place in the list.
\<close>

datatype hval = HUndefined | HNull | HBool bool | HNum jsnum | HStr string | HRef nat

text \<open>A plain object with its own properties in order, or an array with its elements.\<close>

datatype hobj = HObj "(string \<times> hval) list" | HArr "hval list"

type_synonym heap = "hobj list"

type_synonym storeState = "(nat option) moduleState"

text \<open>\<^verbatim>\<open>Object.entries(obj)\<close>.\<close>

definition entriesH :: "hobj \<Rightarrow> (string \<times> hval) list" where
  "entriesH ob = (case ob of HObj ps \<Rightarrow> ps | HArr xs \<Rightarrow> zip (map showNat [0..<length xs]) xs)"

text \<open>\<^verbatim>\<open>obj[key] = v\<close>. The loop of the resolver writes to an array at an index the
  array has; a property of an array under any other key is outside the model, and
  such a write leaves the array as it is.\<close>

definition setPropH :: "hobj \<Rightarrow> string \<Rightarrow> hval \<Rightarrow> hobj" where
  "setPropH ob k v =
     (case ob of
        HObj ps \<Rightarrow> HObj (objSet ps k v)
      | HArr xs \<Rightarrow>
          if showNat (parseNat k) = k \<and> parseNat k < length xs then HArr (xs[parseNat k := v])
          else HArr xs)"

text \<open>What \<^verbatim>\<open>JSON.stringify\<close> reads of a value: the tree below it, followed to the
  depth \<open>n\<close>. There is no reading (\<open>None\<close>) of a structure deeper than \<open>n\<close> (a
  circular one, on which the source throws, has none for any \<open>n\<close>), nor of an
  address that is no object of the store (no run makes one).\<close>

fun readVal :: "nat \<Rightarrow> heap \<Rightarrow> hval \<Rightarrow> jsval option"
and readProps :: "nat \<Rightarrow> heap \<Rightarrow> (string \<times> hval) list \<Rightarrow> (string \<times> jsval) list option"
and readElems :: "nat \<Rightarrow> heap \<Rightarrow> hval list \<Rightarrow> jsval list option"
where
  "readVal n h HUndefined = Some JUndefined"
| "readVal n h HNull = Some JNull"
| "readVal n h (HBool b) = Some (JBool b)"
| "readVal n h (HNum x) = Some (JNum x)"
| "readVal n h (HStr s) = Some (JStr s)"
| "readVal 0 h (HRef a) = None"
| "readVal (Suc n) h (HRef a) =
     (if a < length h
      then (case h ! a of
              HObj ps \<Rightarrow> map_option JObj (readProps n h ps)
            | HArr xs \<Rightarrow> map_option JArr (readElems n h xs))
      else None)"
| "readProps n h [] = Some []"
| "readProps n h ((k, v) # ps) =
     (case readVal n h v of
        None \<Rightarrow> None
      | Some w \<Rightarrow> (case readProps n h ps of None \<Rightarrow> None | Some ws \<Rightarrow> Some ((k, w) # ws)))"
| "readElems n h [] = Some []"
| "readElems n h (v # vs) =
     (case readVal n h v of
        None \<Rightarrow> None
      | Some w \<Rightarrow> (case readElems n h vs of None \<Rightarrow> None | Some ws \<Rightarrow> Some (w # ws)))"

text \<open>The values of a Usage Record as \<open>preprocessMessageValues\<close> reads them: absent, or
  the tree below the values object (an array read as the object of its indices).\<close>

definition readRecord :: "nat \<Rightarrow> heap \<Rightarrow> nat option \<Rightarrow> obj option option" where
  "readRecord n h vals =
     (case vals of
        None \<Rightarrow> Some None
      | Some a \<Rightarrow>
          (case readVal n h (HRef a) of
             Some (JObj ps) \<Rightarrow> Some (Some ps)
           | Some (JArr xs) \<Rightarrow> Some (Some (zip (map showNat [0..<length xs]) xs))
           | _ \<Rightarrow> None))"

text \<open>A call returns, throws, or needs more than the depth it was given; the store it
  leaves comes with each of the three.\<close>

datatype 'a outcome = Done 'a | Raised error | OutOfFuel

text \<open>New objects: a tree whose leaves are values is laid out at the end of the store,
  an object after the objects below it.\<close>

datatype htree = TLeaf hval | TObj "(string \<times> htree) list" | TArr "htree list"

fun allocTree :: "htree \<Rightarrow> heap \<Rightarrow> hval \<times> heap"
and allocProps :: "(string \<times> htree) list \<Rightarrow> heap \<Rightarrow> (string \<times> hval) list \<times> heap"
and allocElems :: "htree list \<Rightarrow> heap \<Rightarrow> hval list \<times> heap"
where
  "allocTree (TLeaf v) h = (v, h)"
| "allocTree (TObj ps) h = (case allocProps ps h of (qs, h1) \<Rightarrow> (HRef (length h1), h1 @ [HObj qs]))"
| "allocTree (TArr ts) h = (case allocElems ts h of (vs, h1) \<Rightarrow> (HRef (length h1), h1 @ [HArr vs]))"
| "allocProps [] h = ([], h)"
| "allocProps ((k, t) # ps) h =
     (case allocTree t h of
        (v, h1) \<Rightarrow> (case allocProps ps h1 of (qs, h2) \<Rightarrow> ((k, v) # qs, h2)))"
| "allocElems [] h = ([], h)"
| "allocElems (t # ts) h =
     (case allocTree t h of
        (v, h1) \<Rightarrow> (case allocElems ts h1 of (vs, h2) \<Rightarrow> (v # vs, h2)))"

text \<open>\<^verbatim>\<open>o[k]\<close> for an own property, and the number an arithmetic operator makes
  of it; below a reference the value is read to the depth \<open>n\<close>.\<close>

definition getPropH :: "hobj \<Rightarrow> string \<Rightarrow> hval option" where
  "getPropH ob k = map_of (entriesH ob) k"

definition toNumberH :: "env \<Rightarrow> nat \<Rightarrow> heap \<Rightarrow> hval option \<Rightarrow> jsnum option" where
  "toNumberH E n h v =
     (case v of
        None \<Rightarrow> Some NaN
      | Some w \<Rightarrow> (case readVal n h w of None \<Rightarrow> None | Some t \<Rightarrow> Some (toNumber E (Some t))))"

text \<open>A tree of values as a tree to lay out (what \<^verbatim>\<open>JSON.parse\<close> builds).\<close>

fun treeOf :: "jsval \<Rightarrow> htree" where
  "treeOf JUndefined = TLeaf HUndefined"
| "treeOf JNull = TLeaf HNull"
| "treeOf (JBool b) = TLeaf (HBool b)"
| "treeOf (JNum x) = TLeaf (HNum x)"
| "treeOf (JStr s) = TLeaf (HStr s)"
| "treeOf (JArr xs) = TArr (map treeOf xs)"
| "treeOf (JObj ob) = TObj (map (\<lambda>(k, v). (k, treeOf v)) ob)"

text \<open>The two callbacks of \<open>preprocessMessageValues\<close>, on the object at the address
  \<open>clonedValues\<close>: each writes to that object.\<close>

definition roundMillisecondsH :: "env \<Rightarrow> nat \<Rightarrow> nat \<Rightarrow> heap \<Rightarrow> element \<Rightarrow> heap option" where
  "roundMillisecondsH E n clonedValues h el =
     (case toNumberH E n h (getPropH (h ! clonedValues) (elId el)) of
        None \<Rightarrow> None
      | Some x \<Rightarrow>
          Some (h[clonedValues := setPropH (h ! clonedValues) (elId el)
                                   (HNum (numMul (mathRound (numDiv x 10)) 10))]))"

definition bytesToKBH :: "env \<Rightarrow> nat \<Rightarrow> nat \<Rightarrow> heap \<Rightarrow> element \<Rightarrow> heap option" where
  "bytesToKBH E n clonedValues h el =
     (case toNumberH E n h (getPropH (h ! clonedValues) (elId el)) of
        None \<Rightarrow> None
      | Some x \<Rightarrow>
          Some (h[clonedValues := setPropH (h ! clonedValues) (elId el) (HNum (numDiv x 1024))]))"

text \<open>\<^verbatim>\<open>forEach\<close> with such a callback; \<open>False\<close> comes with the store in which a
  callback needed more than the depth \<open>n\<close>.\<close>

fun forEachH :: "(heap \<Rightarrow> element \<Rightarrow> heap option) \<Rightarrow> element list \<Rightarrow> heap \<Rightarrow> bool \<times> heap" where
  "forEachH f [] h = (True, h)"
| "forEachH f (el # els) h = (case f h el of None \<Rightarrow> (False, h) | Some h' \<Rightarrow> forEachH f els h')"

text \<open>\<open>preprocessMessageValues\<close> on the store. \<^verbatim>\<open>JSON.stringify(values)\<close> reads the
  tree below the values object, \<^verbatim>\<open>JSON.parse\<close> lays the copy out as new objects, and
  the callbacks write to the copy, at the address \<open>clonedValues\<close>; the function
  returns that address. (A copy of an object or an array is an object or an array, so
  the last case is never reached.)\<close>

definition preprocessMessageValuesH ::
  "env \<Rightarrow> string \<Rightarrow> nat option \<Rightarrow> nat \<Rightarrow> heap \<Rightarrow> (nat option) outcome \<times> heap" where
  "preprocessMessageValuesH E msg vals n h =
     (case vals of
        None \<Rightarrow> (Done None, h)
      | Some a \<Rightarrow>
          (case readVal n h (HRef a) of
             None \<Rightarrow> (OutOfFuel, h)
           | Some t \<Rightarrow>
               (case allocTree (treeOf (jsonClone t)) h of
                  (HRef clonedValues, h1) \<Rightarrow>
                    (case MessageParser_parse E msg of
                       Inl e \<Rightarrow> (Raised e, h1)
                     | Inr elements \<Rightarrow>
                         (case forEachH (roundMillisecondsH E n clonedValues)
                                 (filter (hasStyle ''milliseconds'') elements) h1 of
                            (False, h2) \<Rightarrow> (OutOfFuel, h2)
                          | (True, h2) \<Rightarrow>
                              (case forEachH (bytesToKBH E n clonedValues)
                                      (filter (hasStyle ''bytes'') elements) h2 of
                                 (False, h3) \<Rightarrow> (OutOfFuel, h3)
                               | (True, h3) \<Rightarrow> (Done (Some clonedValues), h3))))
                | (_, h1) \<Rightarrow> (OutOfFuel, h1))))"

text \<open>\<open>formatTemplate\<close> on the store. The formatter of the library is handed the copy;
  its answer is a function of what it reads there.\<close>

definition formatTemplateH ::
  "env \<Rightarrow> string \<Rightarrow> string \<Rightarrow> string \<Rightarrow> nat option \<Rightarrow> nat \<Rightarrow> heap \<Rightarrow> formatted outcome \<times> heap" where
  "formatTemplateH E loc key template vals n h =
     (let localeTemplates = (case objGet (LOCALES E) loc of None \<Rightarrow> [] | Some lt \<Rightarrow> lt);
          localeTemplate = (case objGet localeTemplates key of None \<Rightarrow> None
                            | Some entry \<Rightarrow> Some (message entry));
          templateForMessageFormat =
            (case localeTemplate of None \<Rightarrow> template
             | Some m \<Rightarrow> if m = [] then template else m);
          localeForMessageFormat = (if loc = ''en-XA'' then ''de-DE'' else loc)
      in case preprocessMessageValuesH E template vals n h of
           (Done valuesForMessageFormat, h1) \<Rightarrow>
             (case readRecord n h1 valuesForMessageFormat of
                None \<Rightarrow> (OutOfFuel, h1)
              | Some vs \<Rightarrow>
                  (case MessageFormat_format E templateForMessageFormat localeForMessageFormat vs of
                     Inl e \<Rightarrow> (Raised e, h1)
                   | Inr msg \<Rightarrow>
                       (Done \<lparr>res_message = msg, res_template = templateForMessageFormat\<rparr>, h1)))
         | (Raised e, h1) \<Rightarrow> (Raised e, h1)
         | (OutOfFuel, h1) \<Rightarrow> (OutOfFuel, h1))"

text \<open>The branch of the loop body for a token, up to the write of the message. The
  occurrence holds the address of the values object of the Usage Record.\<close>

definition replaceTokenH ::
  "env \<Rightarrow> storeState \<Rightarrow> string \<Rightarrow> nat \<Rightarrow> string \<Rightarrow> (string \<times> (nat option) logRecord) list
     \<Rightarrow> string list \<Rightarrow> heap
     \<Rightarrow> (string \<times> (string \<times> (nat option) logRecord) list) outcome \<times> heap" where
  "replaceTokenH E st loc n v lg currentPath h =
     (case matchUsage v of
        None \<Rightarrow> (Raised TypeError, h)
      | Some (templateKey, usageIndex) \<Rightarrow>
          (let templateLogRecord = objGet lg templateKey;
               usages = (case formattedStringUsages st templateKey of None \<Rightarrow> [] | Some us \<Rightarrow> us)
           in case arrayGet usages usageIndex of
                None \<Rightarrow> (Raised TypeError, h)
              | Some usage \<Rightarrow>
                  (let occurrences =
                         (case templateLogRecord of None \<Rightarrow> [] | Some r \<Rightarrow> log_occurrences r)
                         @ [\<lparr>occ_values = usage_values usage, occ_path = currentPath\<rparr>]
                   in case formatTemplateH E loc templateKey (usage_template usage)
                             (usage_values usage) n h of
                        (Done res, h1) \<Rightarrow>
                          (Done (res_message res,
                                 objSet lg templateKey
                                   \<lparr>log_template = res_template res,
                                    log_occurrences = occurrences\<rparr>), h1)
                      | (Raised e, h1) \<Rightarrow> (Raised e, h1)
                      | (OutOfFuel, h1) \<Rightarrow> (OutOfFuel, h1))))"

definition isTokenStringH :: "hval \<Rightarrow> bool" where
  "isTokenStringH v = (case v of HStr s \<Rightarrow> testToken s | _ \<Rightarrow> False)"

definition tokenTextH :: "hval \<Rightarrow> string" where
  "tokenTextH v = (case v of HStr s \<Rightarrow> s | _ \<Rightarrow> [])"

text \<open>\<open>replaceInObjectH\<close> is the inner function of the source called on a value, with
  \<open>n\<close> the depth of calls it may still make; \<open>replaceInEntriesH\<close> is its loop, on the
  object at the address \<open>a\<close>. The loop runs over the entries the object had when
  the loop began, and \<^verbatim>\<open>obj[key] = message\<close> writes to the object of the store as
  it is when the write happens.\<close>

fun replaceInObjectH ::
  "env \<Rightarrow> storeState \<Rightarrow> string \<Rightarrow> nat \<Rightarrow> hval \<Rightarrow> (string \<times> (nat option) logRecord) list
     \<Rightarrow> string list \<Rightarrow> heap \<Rightarrow> (string \<times> (nat option) logRecord) list outcome \<times> heap"
and replaceInEntriesH ::
  "env \<Rightarrow> storeState \<Rightarrow> string \<Rightarrow> nat \<Rightarrow> nat \<Rightarrow> (string \<times> hval) list
     \<Rightarrow> (string \<times> (nat option) logRecord) list \<Rightarrow> string list \<Rightarrow> heap
     \<Rightarrow> (string \<times> (nat option) logRecord) list outcome \<times> heap"
where
  "replaceInObjectH E st loc n (HRef a) lg path h =
     (if a < length h
      then (case n of
              0 \<Rightarrow> (OutOfFuel, h)
            | Suc m \<Rightarrow> replaceInEntriesH E st loc m a (entriesH (h ! a)) lg path h)
      else (Done lg, h))"
| "replaceInObjectH E st loc n v lg path h = (Done lg, h)"
| "replaceInEntriesH E st loc n a [] lg path h = (Done lg, h)"
| "replaceInEntriesH E st loc n a ((key, v) # rest) lg path h =
     (if isTokenStringH v
      then (case replaceTokenH E st loc n (tokenTextH v) lg (path @ [key]) h of
              (Done (m, lg'), h1) \<Rightarrow>
                replaceInEntriesH E st loc n a rest lg' path
                  (h1[a := setPropH (h1 ! a) key (HStr m)])
            | (Raised e, h1) \<Rightarrow> (Raised e, h1)
            | (OutOfFuel, h1) \<Rightarrow> (OutOfFuel, h1))
      else (case replaceInObjectH E st loc n v lg (path @ [key]) h of
              (Done lg', h') \<Rightarrow> replaceInEntriesH E st loc n a rest lg' path h'
            | (Raised e, h') \<Rightarrow> (Raised e, h')
            | (OutOfFuel, h') \<Rightarrow> (OutOfFuel, h')))"

text \<open>The audit log of a pass is laid out when the traversal has ended. The source
  makes the objects of the log while it traverses; until \<^verbatim>\<open>lhr.localeLog = log\<close>
  nothing but the variable \<^verbatim>\<open>log\<close> leads to them, so only their addresses differ.\<close>

definition occurrenceTree :: "(nat option) occurrence \<Rightarrow> htree" where
  "occurrenceTree oc =
     TObj [(''values'', TLeaf (case occ_values oc of None \<Rightarrow> HUndefined | Some a \<Rightarrow> HRef a)),
           (''path'', TArr (map (\<lambda>k. TLeaf (HStr k)) (occ_path oc)))]"

definition logTree :: "(string \<times> (nat option) logRecord) list \<Rightarrow> htree" where
  "logTree lg =
     TObj (map (\<lambda>(k, r). (k, TObj [(''template'', TLeaf (HStr (log_template r))),
                                    (''occurrences'', TArr (map occurrenceTree (log_occurrences r)))]))
             lg)"

text \<open>\<open>lhr\<close> is the address of the report, a plain object.\<close>

definition replaceLocaleStringReferencesH ::
  "env \<Rightarrow> storeState \<Rightarrow> nat \<Rightarrow> nat \<Rightarrow> string \<Rightarrow> heap \<Rightarrow> unit outcome \<times> heap" where
  "replaceLocaleStringReferencesH E st n lhr loc h =
     (case replaceInObjectH E st loc n (HRef lhr) [] [] h of
        (Done lg, h1) \<Rightarrow>
          (case allocTree (logTree lg) h1 of
             (l, h2) \<Rightarrow> (Done (), h2[lhr := setPropH (h2 ! lhr) ''localeLog'' l]))
      | (Raised e, h1) \<Rightarrow> (Raised e, h1)
      | (OutOfFuel, h1) \<Rightarrow> (OutOfFuel, h1))"

section \<open>Notions the properties are stated with\<close>

text \<open>The template the Locale Catalog holds for a locale and a key, and the template
  text the formatter settles on: the catalog's when there is one and it is not the
  empty string, else the default template \<open>d\<close>.\<close>

definition catalogTemplate :: "env \<Rightarrow> string \<Rightarrow> string \<Rightarrow> string option" where
  "catalogTemplate E L k =
     (case map_of (LOCALES E) L of
        None \<Rightarrow> None
      | Some c \<Rightarrow> (case map_of c k of None \<Rightarrow> None | Some entry \<Rightarrow> Some (message entry)))"

definition templateUsed :: "env \<Rightarrow> string \<Rightarrow> string \<Rightarrow> string \<Rightarrow> string" where
  "templateUsed E L k d =
     (case catalogTemplate E L k of None \<Rightarrow> d | Some m \<Rightarrow> if m = [] then d else m)"

text \<open>The records stored under a key.\<close>

definition recordedUsages :: "'v moduleState \<Rightarrow> string \<Rightarrow> 'v stringUsage list" where
  "recordedUsages st k = (case formattedStringUsages st k of None \<Rightarrow> [] | Some us \<Rightarrow> us)"

text \<open>An environment to run the module in: paths are left as they are, the parser
  knows the template of \<open>UIStrings.ms\<close> and a template with a placeholder of each
  style, and takes any other template for plain text,
  the formatter answers with the locale and the template it was given, and the
  catalog has one entry, for the pseudo-locale.\<close>

definition sampleEnv :: env where
  "sampleEnv =
     \<lparr>path_relative = (\<lambda>f. f),
      i18n_filename = ''lighthouse-core/lib/i18n.js'',
      MessageFormat_defaultLocale = ''en-US'',
      MessageParser_parse = (\<lambda>msg.
         if msg = ''{timeInMs, number, milliseconds}'' @ [CHR 0xA0] @ ''ms''
         then Inr [ArgumentElement ''timeInMs'' (Some (ArgFormat (Some ''milliseconds''))),
                   MessageTextElement ([CHR 0xA0] @ ''ms'')]
         else if msg = ''{wastedBytes, number, bytes} KB in {timeInMs, number, milliseconds} ms''
         then Inr [ArgumentElement ''wastedBytes'' (Some (ArgFormat (Some ''bytes''))),
                   MessageTextElement '' KB in '',
                   ArgumentElement ''timeInMs'' (Some (ArgFormat (Some ''milliseconds''))),
                   MessageTextElement '' ms'']
         else Inr [MessageTextElement msg]),
      MessageFormat_format = (\<lambda>t l vs. Inr (l @ '': '' @ t)),
      LOCALES = [(''en-XA'', [(''lighthouse-core/lib/i18n.js!#columnURL'', LocaleEntry ''[URL one]'')])],
      ToNumber_other = (\<lambda>v. NaN)\<rparr>"

text \<open>The string leaves of a tree that pass the test of the resolver, each with the
  keys and indices that lead to it from the root, in the order of the traversal.\<close>

fun tokenLeaves :: "string list \<Rightarrow> jsval \<Rightarrow> (string list \<times> string) list"
and tokenLeavesEntries :: "string list \<Rightarrow> (string \<times> jsval) list \<Rightarrow> (string list \<times> string) list"
and tokenLeavesElems :: "string list \<Rightarrow> nat \<Rightarrow> jsval list \<Rightarrow> (string list \<times> string) list"
where
  "tokenLeaves path (JObj ob) = tokenLeavesEntries path ob"
| "tokenLeaves path (JArr xs) = tokenLeavesElems path 0 xs"
| "tokenLeaves path v = []"
| "tokenLeavesEntries path [] = []"
| "tokenLeavesEntries path ((key, v) # rest) =
     (if isTokenString v then [(path @ [key], tokenText v)] else tokenLeaves (path @ [key]) v)
     @ tokenLeavesEntries path rest"
| "tokenLeavesElems path i [] = []"
| "tokenLeavesElems path i (v # rest) =
     (if isTokenString v then [(path @ [showNat i], tokenText v)]
      else tokenLeaves (path @ [showNat i]) v)
     @ tokenLeavesElems path (Suc i) rest"

text \<open>A token names no Usage Record when the registry holds, under the token's key,
  no more records than the number its digits denote.\<close>

definition dangling :: "state \<Rightarrow> string \<Rightarrow> bool" where
  "dangling st tok =
     (case matchUsage tok of
        None \<Rightarrow> False
      | Some (k, i) \<Rightarrow> length (recordedUsages st k) \<le> parseNat i)"

text \<open>A report with the same token at two places, and a string that ends like a
  token and has no \<^verbatim>\<open>!#\<close>.\<close>

definition sampleReport :: obj where
  "sampleReport =
     [(''audits'',
       JObj [(''a'', JObj [(''displayValue'', JStr ''lighthouse-core/lib/i18n.js!#columnURL#0'')]),
             (''b'', JObj [(''displayValue'', JStr ''lighthouse-core/lib/i18n.js!#columnURL#0''),
                           (''score'', JNum (Fin 1)),
                           (''note'', JStr ''issue #12'')])])]"

text \<open>The state after one call of the recorder on the core template \<^verbatim>\<open>URL\<close>, and
  the state after a caller whose catalog holds an empty message text formats it.\<close>

definition sampleState :: state where
  "sampleState =
     snd (createStringFormatter sampleEnv ''audits/a.js'' [] ''URL'' None (initialState sampleEnv))"

definition blankState :: state where
  "blankState =
     snd (createStringFormatter sampleEnv ''audits/a.js'' [(''blank'', [])] [] None
            (initialState sampleEnv))"

text \<open>The key the recorder builds for a key name of the merged catalog.\<close>

definition fileScopedKey :: "env \<Rightarrow> string \<Rightarrow> string \<Rightarrow> string" where
  "fileScopedKey E filename keyname =
     path_relative E (if objIn keyname UIStrings then i18n_filename E else filename)
     @ ''!#'' @ keyname"

text \<open>Calling a recorder \<open>fmt\<close> on the template \<open>t\<close> once for each member of a list of
  values, in order; the tokens are returned in call order.\<close>

fun mintTokens ::
  "(string \<Rightarrow> obj option \<Rightarrow> state \<Rightarrow> (error + string) \<times> state) \<Rightarrow> string \<Rightarrow> obj option list
     \<Rightarrow> state \<Rightarrow> (error + string list) \<times> state" where
  "mintTokens fmt t [] st = (Inr [], st)"
| "mintTokens fmt t (v # vs) st =
     (case fmt t v st of
        (Inl e, st') \<Rightarrow> (Inl e, st')
      | (Inr tok, st') \<Rightarrow>
          (case mintTokens fmt t vs st' of
             (Inl e, st'') \<Rightarrow> (Inl e, st'')
           | (Inr toks, st'') \<Rightarrow> (Inr (tok # toks), st'')))"

text \<open>The occurrences the audit log holds for a key, and the occurrences a list of
  token leaves gives rise to for a key: one for each leaf whose token names a Usage
  Record under that key, with the values of the record and the path of the leaf, in
  the order of the leaves.\<close>

definition logOccurrences :: "localeLog \<Rightarrow> string \<Rightarrow> (obj option) occurrence list" where
  "logOccurrences lg key = (case objGet lg key of None \<Rightarrow> [] | Some r \<Rightarrow> log_occurrences r)"

definition occurrenceOf ::
  "state \<Rightarrow> string list \<times> string \<Rightarrow> (string \<times> (obj option) occurrence) option" where
  "occurrenceOf st leaf =
     (case matchUsage (snd leaf) of
        None \<Rightarrow> None
      | Some (k, i) \<Rightarrow>
          (case arrayGet (recordedUsages st k) i of
             None \<Rightarrow> None
           | Some u \<Rightarrow> Some (k, \<lparr>occ_values = usage_values u, occ_path = fst leaf\<rparr>)))"

definition occurrencesOf ::
  "state \<Rightarrow> string \<Rightarrow> (string list \<times> string) list \<Rightarrow> (obj option) occurrence list" where
  "occurrencesOf st key leaves =
     map snd (filter (\<lambda>ko. fst ko = key) (List.map_filter (occurrenceOf st) leaves))"

text \<open>What a traversal that meets the token leaves \<open>leaves\<close> does to the keys of the
  log: distinct keys stay distinct, the keys of the leaves are added, and every leaf
  names a Usage Record.\<close>

definition logGrows :: "state \<Rightarrow> localeLog \<Rightarrow> localeLog \<Rightarrow> (string list \<times> string) list \<Rightarrow> bool" where
  "logGrows st lg lg' leaves =
     ((distinct (map fst lg) \<longrightarrow> distinct (map fst lg'))
      \<and> fst ` set lg' = fst ` set lg \<union> fst ` set (List.map_filter (occurrenceOf st) leaves)
      \<and> list_all (\<lambda>leaf. occurrenceOf st leaf \<noteq> None) leaves)"

text \<open>The shape of a placeholder token as the specification words it: a \<^verbatim>\<open>!#\<close>
  somewhere before a trailing \<^verbatim>\<open>#\<close> and digits.\<close>

definition tokenShape :: "string \<Rightarrow> bool" where
  "tokenShape s = (\<exists>a b d. s = a @ ''!#'' @ b @ ''#'' @ d \<and> d \<noteq> [] \<and> list_all isDigit d)"

definition shapedString :: "jsval \<Rightarrow> bool" where
  "shapedString v = (case v of JStr s \<Rightarrow> tokenShape s | _ \<Rightarrow> False)"

definition isLeaf :: "jsval \<Rightarrow> bool" where
  "isLeaf v = (case v of JObj _ \<Rightarrow> False | JArr _ \<Rightarrow> False | _ \<Rightarrow> True)"

text \<open>\<open>unchangedBut P v v'\<close>: the tree \<open>v'\<close> is the tree \<open>v\<close>, with the same
  containers, the same keys in the same order and the same leaves, but that a string
  leaf of which \<open>P\<close> holds may have become another string.\<close>

fun unchangedBut :: "(string \<Rightarrow> bool) \<Rightarrow> jsval \<Rightarrow> jsval \<Rightarrow> bool"
and unchangedButEntries :: "(string \<Rightarrow> bool) \<Rightarrow> (string \<times> jsval) list \<Rightarrow> (string \<times> jsval) list \<Rightarrow> bool"
and unchangedButElems :: "(string \<Rightarrow> bool) \<Rightarrow> jsval list \<Rightarrow> jsval list \<Rightarrow> bool"
where
  "unchangedBut P (JObj ob) v' = (case v' of JObj ob' \<Rightarrow> unchangedButEntries P ob ob' | _ \<Rightarrow> False)"
| "unchangedBut P (JArr xs) v' = (case v' of JArr xs' \<Rightarrow> unchangedButElems P xs xs' | _ \<Rightarrow> False)"
| "unchangedBut P (JStr s) v' =
     (v' = JStr s \<or> (P s \<and> (case v' of JStr _ \<Rightarrow> True | _ \<Rightarrow> False)))"
| "unchangedBut P v v' = (v' = v)"
| "unchangedButEntries P [] ob' = (ob' = [])"
| "unchangedButEntries P ((k, v) # rest) ob' =
     (case ob' of
        [] \<Rightarrow> False
      | (k', v') # rest' \<Rightarrow> k' = k \<and> unchangedBut P v v' \<and> unchangedButEntries P rest rest')"
| "unchangedButElems P [] xs' = (xs' = [])"
| "unchangedButElems P (v # rest) xs' =
     (case xs' of
        [] \<Rightarrow> False
      | v' # rest' \<Rightarrow> unchangedBut P v v' \<and> unchangedButElems P rest rest')"

text \<open>The value a path of keys and indices leads to.\<close>

fun valueAt :: "jsval \<Rightarrow> string list \<Rightarrow> jsval option" where
  "valueAt v [] = Some v"
| "valueAt (JObj ob) (k # ks) = (case objGet ob k of None \<Rightarrow> None | Some w \<Rightarrow> valueAt w ks)"
| "valueAt (JArr xs) (k # ks) = (case arrayGet xs k of None \<Rightarrow> None | Some w \<Rightarrow> valueAt w ks)"
| "valueAt v (k # ks) = None"

text \<open>Resolution passes over copies of one report, one for each locale of a list, in
  order; the state each pass leaves is the state the next one starts in.\<close>

fun resolvePasses :: "env \<Rightarrow> obj \<Rightarrow> string list \<Rightarrow> state \<Rightarrow> (error + obj) list \<times> state" where
  "resolvePasses E lhr [] st = ([], st)"
| "resolvePasses E lhr (L # Ls) st =
     (case replaceLocaleStringReferences E lhr L st of
        (r, st') \<Rightarrow> (case resolvePasses E lhr Ls st' of (rs, st'') \<Rightarrow> (r # rs, st'')))"

text \<open>Rounding to a multiple of ten as \<^verbatim>\<open>Math.round(x / 10) * 10\<close> does it, on a
  finite number.\<close>

definition roundToTen :: "real \<Rightarrow> real" where
  "roundToTen x = of_int \<lfloor>x / 10 + 1 / 2\<rfloor> * 10"

text \<open>Values that \<^verbatim>\<open>JSON\<close> keeps as they are: no \<^verbatim>\<open>undefined\<close> and no number
  that is not finite, at any depth.\<close>

fun isJson :: "jsval \<Rightarrow> bool" where
  "isJson JUndefined = False"
| "isJson (JNum n) = (case n of Fin x \<Rightarrow> True | _ \<Rightarrow> False)"
| "isJson (JArr xs) = list_all isJson xs"
| "isJson (JObj ob) = list_all (\<lambda>(k, v). isJson v) ob"
| "isJson v = True"

text \<open>The ids of the top-level placeholders of a style.\<close>

definition styledIds :: "string \<Rightarrow> element list \<Rightarrow> string list" where
  "styledIds s els = map elId (filter (hasStyle s) els)"

text \<open>Passes over the store one after another, each on a report at a locale; a pass
  starts in the store the one before it left, whatever its outcome.\<close>

fun resolvePassesH ::
  "env \<Rightarrow> storeState \<Rightarrow> nat \<Rightarrow> (nat \<times> string) list \<Rightarrow> heap \<Rightarrow> unit outcome list \<times> heap" where
  "resolvePassesH E st n [] h = ([], h)"
| "resolvePassesH E st n ((lhr, loc) # ps) h =
     (case replaceLocaleStringReferencesH E st n lhr loc h of
        (r, h1) \<Rightarrow> (case resolvePassesH E st n ps h1 of (rs, h2) \<Rightarrow> (r # rs, h2)))"

text \<open>The addresses an object refers to. A set of addresses is closed in a store when
  its members are objects of the store and it holds, with an object, every object
  that one refers to: the objects of a report, or those of the values of some Usage
  Records, form such a set.\<close>

definition refsOf :: "hobj \<Rightarrow> nat set" where
  "refsOf ob = {b. HRef b \<in> snd ` set (entriesH ob)}"

definition closedIn :: "heap \<Rightarrow> nat set \<Rightarrow> bool" where
  "closedIn h W = (\<forall>b\<in>W. b < length h \<and> refsOf (h ! b) \<subseteq> W)"

text \<open>Reports that share nothing: each is given by the address of its root and the
  closed set of its objects, and the sets are disjoint from one another and from the
  set \<open>S\<close>.\<close>

fun separateTrees :: "heap \<Rightarrow> nat set \<Rightarrow> (nat \<times> nat set) list \<Rightarrow> bool" where
  "separateTrees h S [] = True"
| "separateTrees h S ((r, W) # ts) =
     (r \<in> W \<and> closedIn h W \<and> W \<inter> S = {}
      \<and> (\<forall>t\<in>set ts. W \<inter> snd t = {}) \<and> separateTrees h S ts)"

text \<open>From a store to a later one: no object is lost, the objects outside \<open>W\<close> are as
  they were and no object refers to more than it did; the same without the last; and
  a closed set whose objects are as they were.\<close>

definition writesWithin :: "nat set \<Rightarrow> heap \<Rightarrow> heap \<Rightarrow> bool" where
  "writesWithin W h h' =
     (length h \<le> length h'
      \<and> (\<forall>b<length h. b \<notin> W \<longrightarrow> h' ! b = h ! b)
      \<and> (\<forall>b<length h. refsOf (h' ! b) \<subseteq> refsOf (h ! b)))"

definition agreeOutside :: "nat set \<Rightarrow> heap \<Rightarrow> heap \<Rightarrow> bool" where
  "agreeOutside W h h' = (length h \<le> length h' \<and> (\<forall>b<length h. b \<notin> W \<longrightarrow> h' ! b = h ! b))"

definition sameOn :: "nat set \<Rightarrow> heap \<Rightarrow> heap \<Rightarrow> bool" where
  "sameOn S h h' = (closedIn h S \<and> (\<forall>b\<in>S. b < length h' \<and> h' ! b = h ! b))"

text \<open>A tree of values that can be read to the depth \<open>n\<close>.\<close>

fun fits :: "nat \<Rightarrow> jsval \<Rightarrow> bool" where
  "fits n (JArr xs) = (case n of 0 \<Rightarrow> False | Suc m \<Rightarrow> list_all (fits m) xs)"
| "fits n (JObj ob) = (case n of 0 \<Rightarrow> False | Suc m \<Rightarrow> list_all (\<lambda>(k, v). fits m v) ob)"
| "fits n v = True"

text \<open>The state after one call of the recorder on the core template \<^verbatim>\<open>URL\<close>, for the
  store.\<close>

definition sampleStoreState :: storeState where
  "sampleStoreState =
     snd (createStringFormatter sampleEnv ''audits/a.js'' [] ''URL'' None (initialState sampleEnv))"

text \<open>A caller that formats one of its strings into the values of another: the
  registry after \<^verbatim>\<open>str_('Total {part}.', {part: str_('Title')})\<close>, with the values
  object at address 0. In \<open>copiesStore\<close> two copies of a report that holds the
  token of the second call stand at the addresses 1 and 2; in \<open>sharedStore\<close> the
  report at address 1 holds the token and, under \<^verbatim>\<open>details\<close>, the values object
  itself.\<close>

definition nestedStrings :: "(string \<times> string) list" where
  "nestedStrings = [(''title'', ''Title''), (''summary'', ''Total {part}.'')]"

definition nestedState :: storeState where
  "nestedState =
     snd (createStringFormatter sampleEnv ''audits/a.js'' nestedStrings ''Total {part}.'' (Some 0)
       (snd (createStringFormatter sampleEnv ''audits/a.js'' nestedStrings ''Title'' None
          (initialState sampleEnv))))"

definition copiesStore :: heap where
  "copiesStore =
     [HObj [(''part'', HStr ''audits/a.js!#title#0'')],
      HObj [(''displayValue'', HStr ''audits/a.js!#summary#0'')],
      HObj [(''displayValue'', HStr ''audits/a.js!#summary#0'')]]"

definition sharedStore :: heap where
  "sharedStore =
     [HObj [(''part'', HStr ''audits/a.js!#title#0'')],
      HObj [(''displayValue'', HStr ''audits/a.js!#summary#0''), (''details'', HRef 0)]]"

text \<open>The Numbers of the machine: a finite double is an integer of magnitude below
  \<open>2 ^ 53\<close> times a power of two between \<open>2 ^ -1074\<close> and \<open>2 ^ 971\<close>;
  \<open>binary53 L\<close> are those with a power of two not below \<open>2 ^ -L\<close>. The machine gives,
  for an arithmetic operation, a double nearest to the exact result (which of two
  equally near ones is left open). \<open>machineRoundToTen x r\<close>: the machine can give
  \<open>r\<close> for \<^verbatim>\<open>Math.round(x / 10) * 10\<close>, where \<^verbatim>\<open>Math.round\<close> is exact.\<close>

definition binary53 :: "nat \<Rightarrow> real \<Rightarrow> bool" where
  "binary53 L x =
     (\<exists>(m::int) (a::nat) (b::nat). \<bar>m\<bar> < 2 ^ 53 \<and> a \<le> 971 \<and> b \<le> L \<and> x = of_int m * 2 ^ a / 2 ^ b)"

definition isDouble :: "real \<Rightarrow> bool" where
  "isDouble x = binary53 1074 x"

definition nearestDouble :: "real \<Rightarrow> real \<Rightarrow> bool" where
  "nearestDouble y q = (isDouble q \<and> (\<forall>d. isDouble d \<longrightarrow> \<bar>y - q\<bar> \<le> \<bar>y - d\<bar>))"

definition machineRoundToTen :: "real \<Rightarrow> real \<Rightarrow> bool" where
  "machineRoundToTen x r =
     (\<exists>q. nearestDouble (x / 10) q \<and> nearestDouble (of_int \<lfloor>q + 1 / 2\<rfloor> * 10) r)"

text \<open>A caller whose templates have two placeholders for one id, both styled
  \<^verbatim>\<open>bytes\<close>, or one styled \<^verbatim>\<open>bytes\<close> and one styled \<^verbatim>\<open>milliseconds\<close>: an
  environment whose parser knows these templates.\<close>

definition twiceEnv :: env where
  "twiceEnv =
     sampleEnv\<lparr>MessageParser_parse := (\<lambda>msg.
        if msg = ''{size, number, bytes} KB of {size, number, bytes} KB''
        then Inr [ArgumentElement ''size'' (Some (ArgFormat (Some ''bytes''))),
                  MessageTextElement '' KB of '',
                  ArgumentElement ''size'' (Some (ArgFormat (Some ''bytes''))),
                  MessageTextElement '' KB'']
        else if msg = ''{size, number, bytes} KB in {size, number, milliseconds} ms''
        then Inr [ArgumentElement ''size'' (Some (ArgFormat (Some ''bytes''))),
                  MessageTextElement '' KB in '',
                  ArgumentElement ''size'' (Some (ArgFormat (Some ''milliseconds''))),
                  MessageTextElement '' ms'']
        else MessageParser_parse sampleEnv msg)\<rparr>"

section \<open>Properties\<close>

subsection \<open>Numerals\<close>

lemma showNat_digits: "list_all isDigit (showNat n)"
proof (induction n rule: showNat.induct)
  case (1 n)
  have d: "isDigit (digitChar k)" if "k < 10" for k
    using that by (simp add: isDigit_def digitChar_def)
  show ?case
  proof (cases "n < 10")
    case True
    then show ?thesis by (subst showNat.simps) (simp add: d)
  next
    case False
    with 1 show ?thesis by (subst showNat.simps) (simp add: d)
  qed
qed

lemma showNat_nonempty: "showNat n \<noteq> []"
  by (subst showNat.simps) simp

lemma parseNat_snoc: "parseNat (s @ [c]) = 10 * parseNat s + digitVal c"
  by (simp add: parseNat_def)

lemma digitVal_digitChar: "k < 10 \<Longrightarrow> digitVal (digitChar k) = k"
  by (simp add: digitVal_def digitChar_def)

lemma parseNat_showNat: "parseNat (showNat n) = n"
proof (induction n rule: showNat.induct)
  case (1 n)
  show ?case
  proof (cases "n < 10")
    case True
    then show ?thesis
      by (subst showNat.simps) (simp add: parseNat_def digitVal_digitChar)
  next
    case False
    with 1 show ?thesis
      by (subst showNat.simps) (simp add: parseNat_snoc digitVal_digitChar)
  qed
qed

lemma arrayGet_showNat: "arrayGet xs (showNat i) = (if i < length xs then Some (xs ! i) else None)"
  by (simp add: arrayGet_def parseNat_showNat)

subsection \<open>The registry is all an operation reads of the state\<close>

lemma replaceToken_registry:
  "formattedStringUsages st = formattedStringUsages st' \<Longrightarrow>
   replaceToken E st loc v lg p = replaceToken E st' loc v lg p"
  by (simp add: replaceToken_def Let_def split: option.splits prod.splits)

lemma replaceInObject_registry:
  assumes "formattedStringUsages st = formattedStringUsages st'"
  shows "replaceInObject E st loc v lg p = replaceInObject E st' loc v lg p"
    and "replaceInEntries E st loc ob lg p = replaceInEntries E st' loc ob lg p"
    and "replaceInElems E st loc i xs lg p = replaceInElems E st' loc i xs lg p"
  using assms
proof (induction E st loc v lg p and E st loc ob lg p and E st loc i xs lg p
    rule: replaceInObject_replaceInEntries_replaceInElems.induct)
  case (5 E st loc key v rest lg path)
  then show ?case
    by (auto simp: replaceToken_registry [of st st'] split: sum.splits)
next
  case (7 E st loc i v rest lg path)
  then show ?case
    by (auto simp: replaceToken_registry [of st st'] split: sum.splits)
qed simp_all

lemma setLocale_registry: "formattedStringUsages (setLocale l st) = formattedStringUsages st"
  by (simp add: setLocale_def split: option.splits)

text \<open>
  C10. A call of \<open>setLocale\<close>, whatever its argument, changes no later result: the
  recorder returns the same token and leaves the state it would have left, with the
  same call of \<open>setLocale\<close> applied to it, and a resolution pass with an explicit
  locale returns the same report or the same error. The variable \<open>setLocale\<close> writes
  is read by no operation.
\<close>

theorem setLocale_unobservable:
  "formatFn E filename mergedStrings template vals (setLocale l st) =
     (fst (formatFn E filename mergedStrings template vals st),
      setLocale l (snd (formatFn E filename mergedStrings template vals st)))
   \<and> fst (replaceLocaleStringReferences E lhr loc (setLocale l st)) =
       fst (replaceLocaleStringReferences E lhr loc st)"
proof
  show "formatFn E filename mergedStrings template vals (setLocale l st) =
     (fst (formatFn E filename mergedStrings template vals st),
      setLocale l (snd (formatFn E filename mergedStrings template vals st)))"
    by (simp add: formatFn_def setLocale_def Let_def split: option.splits)
  have "replaceInEntries E (setLocale l st) loc lhr [] [] = replaceInEntries E st loc lhr [] []"
    by (rule replaceInObject_registry(2)) (rule setLocale_registry)
  then show "fst (replaceLocaleStringReferences E lhr loc (setLocale l st)) =
       fst (replaceLocaleStringReferences E lhr loc st)"
    by (simp add: replaceLocaleStringReferences_def split: sum.splits)
qed

subsection \<open>formatTemplate\<close>

lemma formatTemplate_eq:
  "formatTemplate E loc key d vals =
     (case preprocessMessageValues E d vals of
        Inl e \<Rightarrow> Inl e
      | Inr vs \<Rightarrow>
          (case MessageFormat_format E (templateUsed E loc key d)
                  (if loc = ''en-XA'' then ''de-DE'' else loc) vs of
             Inl e \<Rightarrow> Inl e
           | Inr m \<Rightarrow> Inr \<lparr>res_message = m, res_template = templateUsed E loc key d\<rparr>))"
proof -
  have h: "(case objGet (case objGet (LOCALES E) loc of None \<Rightarrow> [] | Some lt \<Rightarrow> lt) key of
           None \<Rightarrow> None | Some entry \<Rightarrow> Some (message entry)) = catalogTemplate E loc key"
    by (cases "map_of (LOCALES E) loc") (simp_all add: catalogTemplate_def objGet_def)
  show ?thesis
    unfolding formatTemplate_def templateUsed_def Let_def h by (rule refl)
qed

lemma preprocessMessageValues_absent: "preprocessMessageValues E d None = Inr None"
  by (simp add: preprocessMessageValues_def)

text \<open>
  C6. At the pseudo-locale \<^verbatim>\<open>en-XA\<close> the message-formatting capability is given the
  locale \<^verbatim>\<open>de-DE\<close>, while the template text is still the one the catalog holds for
  \<^verbatim>\<open>en-XA\<close> (\<open>templateUsed E ''en-XA''\<close>); at every other locale the capability is
  given the requested locale itself.
\<close>

theorem formatTemplate_number_locale:
  "formatTemplate E ''en-XA'' key d vals =
     (case preprocessMessageValues E d vals of
        Inl e \<Rightarrow> Inl e
      | Inr vs \<Rightarrow>
          (case MessageFormat_format E (templateUsed E ''en-XA'' key d) ''de-DE'' vs of
             Inl e \<Rightarrow> Inl e
           | Inr m \<Rightarrow> Inr \<lparr>res_message = m, res_template = templateUsed E ''en-XA'' key d\<rparr>))
   \<and> (loc \<noteq> ''en-XA'' \<longrightarrow>
        formatTemplate E loc key d vals =
          (case preprocessMessageValues E d vals of
             Inl e \<Rightarrow> Inl e
           | Inr vs \<Rightarrow>
               (case MessageFormat_format E (templateUsed E loc key d) loc vs of
                  Inl e \<Rightarrow> Inl e
                | Inr m \<Rightarrow> Inr \<lparr>res_message = m, res_template = templateUsed E loc key d\<rparr>)))"
  by (simp add: formatTemplate_eq)

theorem formatTemplate_number_locale_witness:
  "formatTemplate sampleEnv ''en-XA'' ''lighthouse-core/lib/i18n.js!#columnURL'' ''URL'' None =
     Inr \<lparr>res_message = ''de-DE: [URL one]'', res_template = ''[URL one]''\<rparr>
   \<and> formatTemplate sampleEnv ''fr'' ''lighthouse-core/lib/i18n.js!#columnURL'' ''URL'' None =
     Inr \<lparr>res_message = ''fr: URL'', res_template = ''URL''\<rparr>"
  using formatTemplate_number_locale
    [of sampleEnv "''lighthouse-core/lib/i18n.js!#columnURL''" "''URL''" None "''fr''"]
  by (simp add: preprocessMessageValues_absent templateUsed_def catalogTemplate_def sampleEnv_def)

subsection \<open>Own properties\<close>

lemma map_of_objInsert: "k \<notin> fst ` set ob \<Longrightarrow> map_of (objInsert k v ob) = (map_of ob)(k \<mapsto> v)"
proof (induction ob)
  case Nil
  then show ?case by simp
next
  case (Cons a ob)
  obtain k' v' where a: "a = (k', v')" by (cases a)
  from Cons a have "k \<noteq> k'" "k \<notin> fst ` set ob" by auto
  with Cons.IH a show ?case by (auto simp: fun_upd_twist)
qed

lemma map_of_update_at:
  "map_of (map (\<lambda>(k', v'). if k' = k then (k', v) else (k', v')) ob) x =
     (if x = k \<and> k \<in> fst ` set ob then Some v else map_of ob x)"
proof (induction ob)
  case Nil
  then show ?case by simp
next
  case (Cons a ob)
  obtain k' v' where a: "a = (k', v')" by (cases a)
  show ?case
  proof (cases "k' = k")
    case True
    then show ?thesis using a Cons.IH by simp
  next
    case False
    then show ?thesis using a Cons.IH by (cases "x = k") simp_all
  qed
qed

lemma map_of_update:
  "k \<in> fst ` set ob \<Longrightarrow>
   map_of (map (\<lambda>(k', v'). if k' = k then (k', v) else (k', v')) ob) = (map_of ob)(k \<mapsto> v)"
  by (rule ext) (simp add: map_of_update_at)

lemma map_of_objSet: "map_of (objSet ob k v) = (map_of ob)(k \<mapsto> v)"
  by (simp add: objSet_def map_of_objInsert map_of_update)

lemma objGet_objSet: "objGet (objSet ob k v) k' = (if k' = k then Some v else objGet ob k')"
  by (simp add: objGet_def map_of_objSet)

lemma set_objInsert: "set (objInsert k v ob) = insert (k, v) (set ob)"
proof (induction ob)
  case Nil
  then show ?case by simp
next
  case (Cons a ob)
  obtain k' v' where a: "a = (k', v')" by (cases a)
  show ?case
  proof (cases "isArrayIndex k \<and> (\<not> isArrayIndex k' \<or> parseNat k < parseNat k')")
    case True
    then show ?thesis using a by simp
  next
    case False
    then show ?thesis using a Cons.IH by (simp add: insert_commute)
  qed
qed

lemma keys_objInsert: "fst ` set (objInsert k v ob) = insert k (fst ` set ob)"
  by (simp add: set_objInsert)

lemma map_fst_update:
  "map (fst \<circ> (\<lambda>(k', v'). if k' = k then (k', v) else (k', v'))) ob = map fst ob"
  by (induction ob) auto

lemma keys_objSet: "fst ` set (objSet ob k v) = insert k (fst ` set ob)"
proof (cases "k \<in> fst ` set ob")
  case False
  then show ?thesis by (simp add: objSet_def keys_objInsert)
next
  case True
  have "set (map fst (map (\<lambda>(k', v'). if k' = k then (k', v) else (k', v')) ob)) = set (map fst ob)"
    by (simp add: map_fst_update)
  then have "fst ` set (map (\<lambda>(k', v'). if k' = k then (k', v) else (k', v')) ob) = fst ` set ob"
    by (simp only: set_map)
  with True show ?thesis by (auto simp: objSet_def)
qed

lemma distinct_objInsert:
  "distinct (map fst ob) \<Longrightarrow> k \<notin> fst ` set ob \<Longrightarrow> distinct (map fst (objInsert k v ob))"
proof (induction ob)
  case Nil
  then show ?case by simp
next
  case (Cons a ob)
  then show ?case using keys_objInsert [of k v ob] by (cases a) auto
qed

lemma distinct_objSet: "distinct (map fst ob) \<Longrightarrow> distinct (map fst (objSet ob k v))"
  by (simp add: objSet_def distinct_objInsert map_fst_update)

lemma distinct_objSpread_aux:
  "distinct (map fst m) \<Longrightarrow> distinct (map fst (foldl (\<lambda>m (k, v). objSet m k v) m xs))"
  by (induction xs arbitrary: m) (auto simp: distinct_objSet)

lemma distinct_objSpread: "distinct (map fst (objSpread a b))"
  by (simp add: objSpread_def distinct_objSpread_aux del: foldl_append)

subsection \<open>Tokens without a Usage Record\<close>

lemma isTokenString_match:
  "isTokenString v \<Longrightarrow> \<exists>k i. matchUsage (tokenText v) = Some (k, i)"
  by (auto simp: isTokenString_def tokenText_def testToken_def split: jsval.splits option.splits)

lemma arrayGet_beyond: "length xs \<le> parseNat i \<Longrightarrow> arrayGet xs i = None"
  by (simp add: arrayGet_def Let_def)

lemma replaceToken_dangling:
  "dangling st tok \<Longrightarrow> replaceToken E st loc tok lg p = Inl TypeError"
  by (auto simp: dangling_def replaceToken_def recordedUsages_def arrayGet_beyond Let_def
      split: option.splits)

lemma replaceInObject_dangling:
  "(q, tok) \<in> set (tokenLeaves p v) \<Longrightarrow> dangling st tok \<Longrightarrow>
     \<exists>e. replaceInObject E st loc v lg p = Inl e"
  "(q, tok) \<in> set (tokenLeavesEntries p ob) \<Longrightarrow> dangling st tok \<Longrightarrow>
     \<exists>e. replaceInEntries E st loc ob lg p = Inl e"
  "(q, tok) \<in> set (tokenLeavesElems p i xs) \<Longrightarrow> dangling st tok \<Longrightarrow>
     \<exists>e. replaceInElems E st loc i xs lg p = Inl e"
proof (induction E st loc v lg p and E st loc ob lg p and E st loc i xs lg p
    rule: replaceInObject_replaceInEntries_replaceInElems.induct)
  case (5 E st loc key v rest lg path)
  show ?case
  proof (cases "(q, tok) \<in> set (if isTokenString v then [(path @ [key], tokenText v)]
                                  else tokenLeaves (path @ [key]) v)")
    case True
    show ?thesis
    proof (cases "isTokenString v")
      case t: True
      with True have "tok = tokenText v" by simp
      with t 5 show ?thesis by (simp add: replaceToken_dangling)
    next
      case f: False
      with True 5 obtain e where "replaceInObject E st loc v lg (path @ [key]) = Inl e"
        by auto
      with f show ?thesis by simp
    qed
  next
    case False
    with 5 have m: "(q, tok) \<in> set (tokenLeavesEntries path rest)" by auto
    show ?thesis
    proof (cases "if isTokenString v then replaceToken E st loc (tokenText v) lg (path @ [key])
            else replaceInObject E st loc v lg (path @ [key])")
      case (Inl e)
      then show ?thesis by simp
    next
      case (Inr r)
      obtain v' lg' where r: "r = (v', lg')" by (cases r)
      from 5(2) [OF Inr r [symmetric] m 5(4)] obtain e where
        "replaceInEntries E st loc rest lg' path = Inl e" by auto
      with Inr r show ?thesis by simp
    qed
  qed
next
  case (7 E st loc i v rest lg path)
  show ?case
  proof (cases "(q, tok) \<in> set (if isTokenString v then [(path @ [showNat i], tokenText v)]
                                  else tokenLeaves (path @ [showNat i]) v)")
    case True
    show ?thesis
    proof (cases "isTokenString v")
      case t: True
      with True have "tok = tokenText v" by simp
      with t 7 show ?thesis by (simp add: replaceToken_dangling)
    next
      case f: False
      with True 7 obtain e where "replaceInObject E st loc v lg (path @ [showNat i]) = Inl e"
        by auto
      with f show ?thesis by simp
    qed
  next
    case False
    with 7 have m: "(q, tok) \<in> set (tokenLeavesElems path (Suc i) rest)" by auto
    show ?thesis
    proof (cases "if isTokenString v then replaceToken E st loc (tokenText v) lg (path @ [showNat i])
            else replaceInObject E st loc v lg (path @ [showNat i])")
      case (Inl e)
      then show ?thesis by simp
    next
      case (Inr r)
      obtain v' lg' where r: "r = (v', lg')" by (cases r)
      from 7(2) [OF Inr r [symmetric] m 7(4)] obtain e where
        "replaceInElems E st loc (Suc i) rest lg' path = Inl e" by auto
      with Inr r show ?thesis by simp
    qed
  qed
qed auto

lemma matchUsage_sample:
  "matchUsage ''lighthouse-core/lib/i18n.js!#columnURL#0'' =
     Some (''lighthouse-core/lib/i18n.js!#columnURL'', ''0'')"
  by (simp add: matchUsage_def isDigit_def isLineTerminator_def Let_def)

lemma matchUsage_issue: "matchUsage ''issue #12'' = Some (''issue '', ''12'')"
  by (simp add: matchUsage_def isDigit_def isLineTerminator_def Let_def)

lemma testToken_sample: "testToken ''lighthouse-core/lib/i18n.js!#columnURL#0''"
  by (simp add: testToken_def matchUsage_sample)

lemma testToken_issue: "\<not> testToken ''issue #12''"
  by (simp add: testToken_def matchUsage_issue)

lemma tokenLeaves_sampleReport:
  "tokenLeavesEntries [] sampleReport =
   [([''audits'', ''a'', ''displayValue''], ''lighthouse-core/lib/i18n.js!#columnURL#0''),
    ([''audits'', ''b'', ''displayValue''], ''lighthouse-core/lib/i18n.js!#columnURL#0'')]"
  by (simp add: sampleReport_def isTokenString_def tokenText_def testToken_sample testToken_issue)

lemma dangling_initially: "dangling (initialState E) ''lighthouse-core/lib/i18n.js!#columnURL#0''"
  by (simp add: dangling_def matchUsage_sample recordedUsages_def initialState_def)

text \<open>
  C8. When a report holds, anywhere in it, a placeholder token that names no Usage
  Record (no record list under its key, or an index past the end of the list), the
  resolution pass raises: it returns an error and no report. At the token itself the
  error is the \<open>TypeError\<close> of reading \<^verbatim>\<open>usage.values\<close> (lemma
  \<open>replaceToken_dangling\<close>).
\<close>

theorem dangling_token_raises:
  assumes "(q, tok) \<in> set (tokenLeavesEntries [] lhr)" and "dangling st tok"
  shows "\<exists>e. fst (replaceLocaleStringReferences E lhr loc st) = Inl e"
proof -
  from replaceInObject_dangling(2) [OF assms] obtain e where
    "replaceInEntries E st loc lhr [] [] = Inl e" by blast
  then show ?thesis by (simp add: replaceLocaleStringReferences_def)
qed

theorem dangling_token_raises_witness:
  "([''audits'', ''a'', ''displayValue''], ''lighthouse-core/lib/i18n.js!#columnURL#0'')
      \<in> set (tokenLeavesEntries [] sampleReport)
   \<and> dangling (initialState sampleEnv) ''lighthouse-core/lib/i18n.js!#columnURL#0''
   \<and> (\<exists>e. fst (replaceLocaleStringReferences sampleEnv sampleReport ''fr''
                  (initialState sampleEnv)) = Inl e)"
proof -
  have a: "([''audits'', ''a'', ''displayValue''], ''lighthouse-core/lib/i18n.js!#columnURL#0'')
      \<in> set (tokenLeavesEntries [] sampleReport)"
    by (simp add: tokenLeaves_sampleReport)
  show ?thesis
    using a dangling_initially [of sampleEnv]
      dangling_token_raises [where E = sampleEnv and loc = "''fr''",
        OF a dangling_initially [of sampleEnv]]
    by simp
qed

subsection \<open>The recorder\<close>

lemma find_keys_None:
  assumes "distinct (map fst ms)"
  shows "(find (\<lambda>k. objGet ms k = Some t) (map fst ms) = None) = (t \<notin> snd ` set ms)"
proof -
  have "(find (\<lambda>k. objGet ms k = Some t) (map fst ms) = None)
        = (\<forall>k \<in> set (map fst ms). map_of ms k \<noteq> Some t)"
    by (simp add: find_None_iff objGet_def)
  also have "\<dots> = (t \<notin> snd ` set ms)"
    using assms by (force simp: image_iff dest: map_of_SomeD)
  finally show ?thesis .
qed

lemma objSpread_empty_key: "objSpread UIStrings [('''', ''Hello'')] = UIStrings @ [('''', ''Hello'')]"
  by code_simp

text \<open>
  C2 (the source departs from it). A caller whose catalog registers the text
  \<^verbatim>\<open>Hello\<close> under the empty key gets the error for an unknown template when it
  formats \<^verbatim>\<open>Hello\<close>: \<^verbatim>\<open>find\<close> returns the key \<^verbatim>\<open>''\<close>, and
  \<^verbatim>\<open>!keyname\<close> holds of it as it does of \<^verbatim>\<open>undefined\<close>.
\<close>

theorem formatFn_empty_key_raises:
  "fst (createStringFormatter E ''a.js'' [('''', ''Hello'')] ''Hello'' None st)
     = Inl (Error ''Could not locate: Hello'')
   \<and> ''Hello'' \<in> snd ` set (objSpread UIStrings [('''', ''Hello'')])"
  unfolding createStringFormatter_def objSpread_empty_key
  by (simp add: formatFn_def UIStrings_def objGet_def)

lemma find_first_key:
  "find (\<lambda>k. objGet ms k = Some t) (map fst ms) = Some kn \<Longrightarrow> objGet ms kn = Some t \<and> kn \<in> fst ` set ms"
  by (auto simp: find_Some_iff)

text \<open>With distinct keys, none of them empty, the recorder raises exactly for the
  templates that are no registered text; the error names the template and the state
  is the one it was called in.\<close>

lemma formatFn_raises_iff:
  assumes "distinct (map fst ms)" and "[] \<notin> fst ` set ms"
  shows "(\<exists>e. fst (formatFn E filename ms t vals st) = Inl e) = (t \<notin> snd ` set ms)"
proof (cases "find (\<lambda>k. objGet ms k = Some t) (map fst ms)")
  case None
  then show ?thesis using find_keys_None [OF assms(1), of t] by (simp add: formatFn_def)
next
  case (Some kn)
  with find_first_key [OF Some] assms(2) have "kn \<noteq> []" by force
  moreover from Some find_keys_None [OF assms(1), of t] have "t \<in> snd ` set ms" by simp
  ultimately show ?thesis using Some by (simp add: formatFn_def Let_def)
qed

lemma formatFn_error:
  "fst (formatFn E filename ms t vals st) = Inl e \<Longrightarrow>
     e = Error (''Could not locate: '' @ t) \<and> snd (formatFn E filename ms t vals st) = st"
  by (auto simp: formatFn_def Let_def split: option.splits if_splits)

subsection \<open>The template text used\<close>

lemma objSpread_none: "objSpread UIStrings [] = UIStrings"
  by code_simp

lemma objSpread_blank: "objSpread UIStrings [(''blank'', [])] = UIStrings @ [(''blank'', [])]"
  by code_simp

lemma showNat_0: "showNat 0 = ''0''"
  by code_simp

lemma sample_token:
  "createStringFormatter sampleEnv ''audits/a.js'' [] ''URL'' None (initialState sampleEnv) =
     (Inr ''lighthouse-core/lib/i18n.js!#columnURL#0'',
      \<lparr>currentLocale = ''en-US'',
       formattedStringUsages = [''lighthouse-core/lib/i18n.js!#columnURL'' \<mapsto>
          [\<lparr>usage_key = ''lighthouse-core/lib/i18n.js!#columnURL'', usage_template = ''URL'',
            usage_values = None\<rparr>]]\<rparr>)"
  unfolding createStringFormatter_def objSpread_none
  by (simp add: formatFn_def UIStrings_def objGet_def objIn_def initialState_def sampleEnv_def
      showNat_0 Let_def)

lemma blank_token:
  "createStringFormatter sampleEnv ''audits/a.js'' [(''blank'', [])] [] None (initialState sampleEnv) =
     (Inr ''audits/a.js!#blank#0'',
      \<lparr>currentLocale = ''en-US'',
       formattedStringUsages = [''audits/a.js!#blank'' \<mapsto>
          [\<lparr>usage_key = ''audits/a.js!#blank'', usage_template = [],
            usage_values = None\<rparr>]]\<rparr>)"
  unfolding createStringFormatter_def objSpread_blank
  by (simp add: formatFn_def UIStrings_def objGet_def objIn_def objectPrototypeKeys_def
      initialState_def sampleEnv_def showNat_0 Let_def)

lemma matchUsage_blank: "matchUsage ''audits/a.js!#blank#0'' = Some (''audits/a.js!#blank'', ''0'')"
  by (simp add: matchUsage_def isDigit_def isLineTerminator_def Let_def)

lemma arrayGet_0: "arrayGet [u] ''0'' = Some u"
  using arrayGet_showNat [of "[u]" 0] by (simp add: showNat_0)

lemma localeLog_not_index: "\<not> isArrayIndex ''localeLog''"
  by (simp add: isArrayIndex_def isDigit_def)

text \<open>
  C5, as the claim has it, fails: a caller that registers the empty string as a
  message text gets a token for it, and the pass that resolves the token records the
  empty string as the template of the key.
\<close>

theorem empty_template_recorded:
  "fst (createStringFormatter sampleEnv ''audits/a.js'' [(''blank'', [])] [] None
          (initialState sampleEnv)) = Inr ''audits/a.js!#blank#0''
   \<and> fst (replaceLocaleStringReferences sampleEnv [(''title'', JStr ''audits/a.js!#blank#0'')] ''fr''
            blankState)
       = Inr [(''title'', JStr ''fr: ''),
              (''localeLog'',
               JObj [(''audits/a.js!#blank'',
                      JObj [(''template'', JStr []),
                            (''occurrences'',
                             JArr [JObj [(''values'', JUndefined),
                                         (''path'', JArr [JStr ''title''])]])])])]"
proof -
  have t: "testToken ''audits/a.js!#blank#0''"
    by (simp add: testToken_def matchUsage_blank)
  have f: "formatTemplate sampleEnv ''fr'' ''audits/a.js!#blank'' [] None =
             Inr \<lparr>res_message = ''fr: '', res_template = []\<rparr>"
    by (simp add: formatTemplate_eq preprocessMessageValues_absent templateUsed_def
        catalogTemplate_def sampleEnv_def)
  have r: "replaceToken sampleEnv blankState ''fr'' ''audits/a.js!#blank#0'' [] [''title''] =
             Inr (JStr ''fr: '',
                  [(''audits/a.js!#blank'',
                    \<lparr>log_template = [],
                     log_occurrences = [\<lparr>occ_values = None, occ_path = [''title'']\<rparr>]\<rparr>)])"
    by (simp add: replaceToken_def matchUsage_blank blankState_def blank_token arrayGet_0 f
        objGet_def objSet_def)
  show ?thesis
    by (simp add: blank_token replaceLocaleStringReferences_def isTokenString_def tokenText_def
        t r objSet_def localeLog_not_index logToJs_def logRecordToJs_def occurrenceToJs_def)
qed


lemma replaceToken_Inr:
  assumes "replaceToken E st L tok lg p = Inr (v', lg')"
  shows "\<exists>k i u res. matchUsage tok = Some (k, i)
           \<and> arrayGet (recordedUsages st k) i = Some u
           \<and> formatTemplate E L k (usage_template u) (usage_values u) = Inr res
           \<and> v' = JStr (res_message res)
           \<and> lg' = objSet lg k
                \<lparr>log_template = res_template res,
                 log_occurrences = (case objGet lg k of None \<Rightarrow> [] | Some r \<Rightarrow> log_occurrences r)
                    @ [\<lparr>occ_values = usage_values u, occ_path = p\<rparr>]\<rparr>"
  using assms
  by (auto simp: replaceToken_def recordedUsages_def Let_def
      split: option.splits prod.splits sum.splits)

lemma formatTemplate_template:
  "formatTemplate E L k d vals = Inr res \<Longrightarrow> res_template res = templateUsed E L k d"
  by (auto simp: formatTemplate_eq split: sum.splits)

text \<open>
  C5, amended. The template text the formatter returns is \<open>templateUsed\<close>: the
  catalog's template for the locale and the key when there is one and it is not the
  empty string, else the default template. It is not empty when the default template
  is not. The formatter fails only when preprocessing the values or the
  message-formatting capability fails, never for a missing catalog entry. When a
  token is resolved, the audit-log entry of its key holds that template text.
\<close>

theorem template_fallback:
  "(formatTemplate E L k d vals = Inr res \<longrightarrow> res_template res = templateUsed E L k d)
   \<and> (d \<noteq> [] \<longrightarrow> templateUsed E L k d \<noteq> [])
   \<and> ((\<exists>e. formatTemplate E L k d vals = Inl e) =
        ((\<exists>e. preprocessMessageValues E d vals = Inl e)
         \<or> (\<exists>vs e. preprocessMessageValues E d vals = Inr vs
               \<and> MessageFormat_format E (templateUsed E L k d)
                    (if L = ''en-XA'' then ''de-DE'' else L) vs = Inl e)))
   \<and> (replaceToken E st L tok lg p = Inr (v', lg') \<longrightarrow>
        (\<exists>key i u. matchUsage tok = Some (key, i)
            \<and> arrayGet (recordedUsages st key) i = Some u
            \<and> map_option log_template (objGet lg' key)
                = Some (templateUsed E L key (usage_template u))))"
proof (intro conjI impI)
  assume "formatTemplate E L k d vals = Inr res"
  then show "res_template res = templateUsed E L k d" by (rule formatTemplate_template)
next
  assume "d \<noteq> []"
  then show "templateUsed E L k d \<noteq> []"
    by (simp add: templateUsed_def split: option.splits)
next
  show "(\<exists>e. formatTemplate E L k d vals = Inl e) =
        ((\<exists>e. preprocessMessageValues E d vals = Inl e)
         \<or> (\<exists>vs e. preprocessMessageValues E d vals = Inr vs
               \<and> MessageFormat_format E (templateUsed E L k d)
                    (if L = ''en-XA'' then ''de-DE'' else L) vs = Inl e))"
    by (cases "preprocessMessageValues E d vals")
       (auto simp: formatTemplate_eq split: sum.splits)
next
  assume "replaceToken E st L tok lg p = Inr (v', lg')"
  from replaceToken_Inr [OF this] obtain key i u res where
    h: "matchUsage tok = Some (key, i)" "arrayGet (recordedUsages st key) i = Some u"
       "formatTemplate E L key (usage_template u) (usage_values u) = Inr res"
       "lg' = objSet lg key
                \<lparr>log_template = res_template res,
                 log_occurrences = (case objGet lg key of None \<Rightarrow> [] | Some r \<Rightarrow> log_occurrences r)
                    @ [\<lparr>occ_values = usage_values u, occ_path = p\<rparr>]\<rparr>"
    by blast
  from h(3) have "res_template res = templateUsed E L key (usage_template u)"
    by (rule formatTemplate_template)
  with h show "\<exists>key i u. matchUsage tok = Some (key, i)
            \<and> arrayGet (recordedUsages st key) i = Some u
            \<and> map_option log_template (objGet lg' key)
                = Some (templateUsed E L key (usage_template u))"
    by (simp add: objGet_objSet)
qed

lemma sampleState_eq:
  "sampleState = \<lparr>currentLocale = ''en-US'',
       formattedStringUsages = [''lighthouse-core/lib/i18n.js!#columnURL'' \<mapsto>
          [\<lparr>usage_key = ''lighthouse-core/lib/i18n.js!#columnURL'', usage_template = ''URL'',
            usage_values = None\<rparr>]]\<rparr>"
  by (simp add: sampleState_def sample_token)

lemma formatTemplate_sample_fr:
  "formatTemplate sampleEnv ''fr'' ''lighthouse-core/lib/i18n.js!#columnURL'' ''URL'' None =
     Inr \<lparr>res_message = ''fr: URL'', res_template = ''URL''\<rparr>"
  by (simp add: formatTemplate_eq preprocessMessageValues_absent templateUsed_def
      catalogTemplate_def sampleEnv_def)

lemma replaceToken_sample_fr:
  "replaceToken sampleEnv sampleState ''fr'' ''lighthouse-core/lib/i18n.js!#columnURL#0'' [] [''title''] =
     Inr (JStr ''fr: URL'',
          [(''lighthouse-core/lib/i18n.js!#columnURL'',
            \<lparr>log_template = ''URL'',
             log_occurrences = [\<lparr>occ_values = None, occ_path = [''title'']\<rparr>]\<rparr>)])"
  by (simp add: replaceToken_def matchUsage_sample sampleState_eq arrayGet_0
      formatTemplate_sample_fr objGet_def objSet_def)

theorem template_fallback_witness:
  "formatTemplate sampleEnv ''fr'' ''lighthouse-core/lib/i18n.js!#columnURL'' ''URL'' None =
     Inr \<lparr>res_message = ''fr: URL'', res_template = ''URL''\<rparr>
   \<and> catalogTemplate sampleEnv ''fr'' ''lighthouse-core/lib/i18n.js!#columnURL'' = None
   \<and> templateUsed sampleEnv ''fr'' ''lighthouse-core/lib/i18n.js!#columnURL'' ''URL'' = ''URL''
   \<and> (\<exists>v' lg'. replaceToken sampleEnv sampleState ''fr''
          ''lighthouse-core/lib/i18n.js!#columnURL#0'' [] [''title''] = Inr (v', lg')
        \<and> (\<exists>key i u. matchUsage ''lighthouse-core/lib/i18n.js!#columnURL#0'' = Some (key, i)
            \<and> arrayGet (recordedUsages sampleState key) i = Some u
            \<and> map_option log_template (objGet lg' key)
                = Some (templateUsed sampleEnv ''fr'' key (usage_template u))))"
proof -
  note T = template_fallback [of sampleEnv "''fr''" "''lighthouse-core/lib/i18n.js!#columnURL''"
      "''URL''" None "\<lparr>res_message = ''fr: URL'', res_template = ''URL''\<rparr>" sampleState
      "''lighthouse-core/lib/i18n.js!#columnURL#0''" "[]" "[''title'']" "JStr ''fr: URL''"
      "[(''lighthouse-core/lib/i18n.js!#columnURL'',
            \<lparr>log_template = ''URL'',
             log_occurrences = [\<lparr>occ_values = None, occ_path = [''title'']\<rparr>]\<rparr>)]"]
  from T formatTemplate_sample_fr
  have a: "templateUsed sampleEnv ''fr'' ''lighthouse-core/lib/i18n.js!#columnURL'' ''URL'' = ''URL''"
    by simp
  from T replaceToken_sample_fr
  have b: "\<exists>key i u. matchUsage ''lighthouse-core/lib/i18n.js!#columnURL#0'' = Some (key, i)
            \<and> arrayGet (recordedUsages sampleState key) i = Some u
            \<and> map_option log_template
                 (objGet ([(''lighthouse-core/lib/i18n.js!#columnURL'',
                    \<lparr>log_template = ''URL'',
                     log_occurrences = [\<lparr>occ_values = None, occ_path = [''title'']\<rparr>]\<rparr>)]
                    :: localeLog) key)
                = Some (templateUsed sampleEnv ''fr'' key (usage_template u))"
    by blast
  have c: "catalogTemplate sampleEnv ''fr'' ''lighthouse-core/lib/i18n.js!#columnURL'' = None"
    by (simp add: catalogTemplate_def sampleEnv_def)
  from a b c formatTemplate_sample_fr replaceToken_sample_fr show ?thesis by blast
qed

subsection \<open>Minting tokens and resolving them\<close>

lemma hash_not_digit: "\<not> isDigit CHR ''#''"
  by (simp add: isDigit_def)

lemma takeWhile_all: "list_all P xs \<Longrightarrow> \<not> P y \<Longrightarrow> takeWhile P (xs @ y # ys) = xs"
  by (induction xs) auto

lemma dropWhile_all: "list_all P xs \<Longrightarrow> \<not> P y \<Longrightarrow> dropWhile P (xs @ y # ys) = y # ys"
  by (induction xs) auto

lemma matchUsage_token:
  assumes "list_all (\<lambda>c. \<not> isLineTerminator c) key"
  shows "matchUsage (key @ ''#'' @ showNat n) = Some (key, showNat n)"
proof -
  let ?d = "showNat n"
  have r: "rev (key @ ''#'' @ ?d) = rev ?d @ CHR ''#'' # rev key" by simp
  have dg: "list_all isDigit (rev ?d)" using showNat_digits [of n] by (simp add: list_all_iff)
  have t: "takeWhile isDigit (rev (key @ ''#'' @ ?d)) = rev ?d"
    unfolding r by (rule takeWhile_all [OF dg hash_not_digit])
  have d: "dropWhile isDigit (rev (key @ ''#'' @ ?d)) = CHR ''#'' # rev key"
    unfolding r by (rule dropWhile_all [OF dg hash_not_digit])
  have k: "takeWhile (\<lambda>c. \<not> isLineTerminator c) (rev key) = rev key"
    using assms by (simp add: list_all_iff)
  show ?thesis
    unfolding matchUsage_def t d by (simp add: showNat_nonempty k Let_def)
qed

lemma hasBangHash_append: "hasBangHash (p @ ''!#'' @ kn)"
proof (induction p rule: hasBangHash.induct)
  case (1 a b cs)
  then show ?case by simp
qed simp_all

lemma testToken_token:
  assumes "list_all (\<lambda>c. \<not> isLineTerminator c) (p @ ''!#'' @ kn)"
  shows "testToken ((p @ ''!#'' @ kn) @ ''#'' @ showNat n)"
  unfolding testToken_def matchUsage_token [OF assms] using hasBangHash_append [of p kn] by simp

lemma recordedUsages_upd:
  "recordedUsages (st\<lparr>formattedStringUsages := (formattedStringUsages st)(k \<mapsto> us)\<rparr>) k' =
     (if k' = k then us else recordedUsages st k')"
  by (simp add: recordedUsages_def)

lemma formatFn_success:
  assumes "find (\<lambda>k. objGet ms k = Some t) (map fst ms) = Some keyname" and "keyname \<noteq> []"
  shows "formatFn E filename ms t v st =
     (Inr (fileScopedKey E filename keyname @ ''#''
            @ showNat (length (recordedUsages st (fileScopedKey E filename keyname)))),
      st\<lparr>formattedStringUsages := (formattedStringUsages st)
           (fileScopedKey E filename keyname \<mapsto>
              recordedUsages st (fileScopedKey E filename keyname)
              @ [\<lparr>usage_key = fileScopedKey E filename keyname, usage_template = t,
                  usage_values = v\<rparr>])\<rparr>)"
  using assms by (simp add: formatFn_def fileScopedKey_def recordedUsages_def Let_def)

lemma mintTokens_formatFn:
  assumes "find (\<lambda>k. objGet ms k = Some t) (map fst ms) = Some keyname" and "keyname \<noteq> []"
    and "key = fileScopedKey E filename keyname"
  shows "fst (mintTokens (formatFn E filename ms) t vs st) =
           Inr (map (\<lambda>i. key @ ''#'' @ showNat (length (recordedUsages st key) + i))
                  [0..<length vs])
       \<and> recordedUsages (snd (mintTokens (formatFn E filename ms) t vs st)) key =
           recordedUsages st key
           @ map (\<lambda>v. \<lparr>usage_key = key, usage_template = t, usage_values = v\<rparr>) vs
       \<and> (\<forall>k. k \<noteq> key \<longrightarrow>
             recordedUsages (snd (mintTokens (formatFn E filename ms) t vs st)) k =
             recordedUsages st k)"
proof (induction vs arbitrary: st)
  case Nil
  then show ?case by simp
next
  case (Cons v vs)
  let ?st1 = "st\<lparr>formattedStringUsages := (formattedStringUsages st)
           (key \<mapsto> recordedUsages st key
              @ [\<lparr>usage_key = key, usage_template = t, usage_values = v\<rparr>])\<rparr>"
  have f: "formatFn E filename ms t v st =
     (Inr (key @ ''#'' @ showNat (length (recordedUsages st key))), ?st1)"
    unfolding assms(3) by (rule formatFn_success [OF assms(1,2)])
  have l: "length (recordedUsages ?st1 key) = Suc (length (recordedUsages st key))"
    by (simp add: recordedUsages_upd)
  have m: "map (\<lambda>i. key @ ''#'' @ showNat (length (recordedUsages st key) + i)) [0..<Suc (length vs)]
        = (key @ ''#'' @ showNat (length (recordedUsages st key)))
          # map (\<lambda>i. key @ ''#'' @ showNat (Suc (length (recordedUsages st key)) + i)) [0..<length vs]"
    by (simp add: upt_rec [of 0] map_Suc_upt [symmetric] del: upt_Suc)
  from Cons [of ?st1] obtain toks st2 where
    r: "mintTokens (formatFn E filename ms) t vs ?st1 = (Inr toks, st2)"
    by (cases "mintTokens (formatFn E filename ms) t vs ?st1") auto
  with Cons [of ?st1] l have
    c: "toks = map (\<lambda>i. key @ ''#'' @ showNat (Suc (length (recordedUsages st key)) + i)) [0..<length vs]"
       "recordedUsages st2 key = recordedUsages ?st1 key
           @ map (\<lambda>v. \<lparr>usage_key = key, usage_template = t, usage_values = v\<rparr>) vs"
       "\<forall>k. k \<noteq> key \<longrightarrow> recordedUsages st2 k = recordedUsages ?st1 k"
    by simp_all
  show ?case
    using c m by (simp add: f r recordedUsages_upd)
qed

lemma resolve_single_leaf:
  assumes "testToken tok"
  shows "fst (replaceLocaleStringReferences E [(x, JStr tok)] L st) =
     (case replaceToken E st L tok [] [x] of
        Inl e \<Rightarrow> Inl e
      | Inr (v', lg') \<Rightarrow> Inr (objSet [(x, v')] ''localeLog'' (logToJs lg')))"
  using assms
  by (simp add: replaceLocaleStringReferences_def isTokenString_def tokenText_def
      split: sum.splits prod.splits)

lemma replaceToken_alt:
  "replaceToken E st L v lg p =
     (case matchUsage v of
        None \<Rightarrow> Inl TypeError
      | Some (k, i) \<Rightarrow>
          (case arrayGet (recordedUsages st k) i of
             None \<Rightarrow> Inl TypeError
           | Some u \<Rightarrow>
               (case formatTemplate E L k (usage_template u) (usage_values u) of
                  Inl e \<Rightarrow> Inl e
                | Inr res \<Rightarrow>
                    Inr (JStr (res_message res),
                         objSet lg k
                           \<lparr>log_template = res_template res,
                            log_occurrences =
                              (case objGet lg k of None \<Rightarrow> [] | Some r \<Rightarrow> log_occurrences r)
                              @ [\<lparr>occ_values = usage_values u, occ_path = p\<rparr>]\<rparr>))))"
  unfolding replaceToken_def recordedUsages_def Let_def by (rule refl)

lemma replaceToken_minted:
  assumes "list_all (\<lambda>c. \<not> isLineTerminator c) key"
    and "n < length (recordedUsages st key)"
  shows "replaceToken E st L (key @ ''#'' @ showNat n) lg p =
     (case formatTemplate E L key (usage_template (recordedUsages st key ! n))
             (usage_values (recordedUsages st key ! n)) of
        Inl e \<Rightarrow> Inl e
      | Inr res \<Rightarrow>
          Inr (JStr (res_message res),
               objSet lg key
                 \<lparr>log_template = res_template res,
                  log_occurrences =
                    (case objGet lg key of None \<Rightarrow> [] | Some r \<Rightarrow> log_occurrences r)
                    @ [\<lparr>occ_values = usage_values (recordedUsages st key ! n), occ_path = p\<rparr>]\<rparr>))"
proof -
  have a: "arrayGet (recordedUsages st key) (showNat n) = Some (recordedUsages st key ! n)"
    using assms(2) by (simp add: arrayGet_showNat)
  show ?thesis
    unfolding replaceToken_alt matchUsage_token [OF assms(1)]
    using a by simp
qed

text \<open>
  C1, amended. Let the template \<open>t\<close> be found in the merged catalog under a key name
  that is not empty, let the file-scoped key built from it hold no line terminator, and
  let the registry hold \<open>n0\<close> records under that key. Then \<open>N\<close> calls of the recorder
  on \<open>t\<close> return, in call order, the tokens with the indices \<open>n0, ..., n0 + N - 1\<close>
  (so \<open>0, ..., N - 1\<close> on a key with no records yet); the registry holds the \<open>N\<close> new
  records after the old ones, in call order; and a pass over a report whose one leaf
  is the \<open>i\<close>-th token puts there the message formatted from the \<open>i\<close>-th values, and
  logs those values.
\<close>

theorem mint_then_resolve:
  assumes "find (\<lambda>k. objGet (objSpread UIStrings fileStrings) k = Some t)
             (map fst (objSpread UIStrings fileStrings)) = Some keyname"
    and "keyname \<noteq> []"
    and "key = fileScopedKey E filename keyname"
    and "list_all (\<lambda>c. \<not> isLineTerminator c) key"
    and "st' = snd (mintTokens (createStringFormatter E filename fileStrings) t vs st)"
    and "n0 = length (recordedUsages st key)"
  shows "fst (mintTokens (createStringFormatter E filename fileStrings) t vs st) =
           Inr (map (\<lambda>i. key @ ''#'' @ showNat (n0 + i)) [0..<length vs])
       \<and> recordedUsages st' key =
           recordedUsages st key
           @ map (\<lambda>v. \<lparr>usage_key = key, usage_template = t, usage_values = v\<rparr>) vs
       \<and> (\<forall>i < length vs.
             fst (replaceLocaleStringReferences E [(x, JStr (key @ ''#'' @ showNat (n0 + i)))] L st') =
               (case formatTemplate E L key t (vs ! i) of
                  Inl e \<Rightarrow> Inl e
                | Inr res \<Rightarrow>
                    Inr (objSet [(x, JStr (res_message res))] ''localeLog''
                          (logToJs [(key, \<lparr>log_template = res_template res,
                                           log_occurrences =
                                             [\<lparr>occ_values = vs ! i, occ_path = [x]\<rparr>]\<rparr>)]))))"
proof -
  let ?ms = "objSpread UIStrings fileStrings"
  have c: "createStringFormatter E filename fileStrings = formatFn E filename ?ms"
    by (rule ext) (simp add: createStringFormatter_def)
  note M = mintTokens_formatFn [OF assms(1,2,3), of vs st]
  from M have toks: "fst (mintTokens (createStringFormatter E filename fileStrings) t vs st) =
           Inr (map (\<lambda>i. key @ ''#'' @ showNat (n0 + i)) [0..<length vs])"
    by (simp add: c assms(6))
  from M have us: "recordedUsages st' key =
           recordedUsages st key
           @ map (\<lambda>v. \<lparr>usage_key = key, usage_template = t, usage_values = v\<rparr>) vs"
    by (simp add: c assms(5))
  have res: "fst (replaceLocaleStringReferences E [(x, JStr (key @ ''#'' @ showNat (n0 + i)))] L st') =
               (case formatTemplate E L key t (vs ! i) of
                  Inl e \<Rightarrow> Inl e
                | Inr res \<Rightarrow>
                    Inr (objSet [(x, JStr (res_message res))] ''localeLog''
                          (logToJs [(key, \<lparr>log_template = res_template res,
                                           log_occurrences =
                                             [\<lparr>occ_values = vs ! i, occ_path = [x]\<rparr>]\<rparr>)])))"
    if i: "i < length vs" for i
  proof -
    obtain p where k: "key = p @ ''!#'' @ keyname"
      using assms(3) by (simp add: fileScopedKey_def)
    have tt: "testToken (key @ ''#'' @ showNat (n0 + i))"
      using testToken_token [of p keyname "n0 + i"] assms(4) k by simp
    have lt: "n0 + i < length (recordedUsages st' key)"
      using i by (simp add: us assms(6))
    have nth: "recordedUsages st' key ! (n0 + i) =
                 \<lparr>usage_key = key, usage_template = t, usage_values = vs ! i\<rparr>"
      using i by (simp add: us assms(6) nth_append)
    show ?thesis
      unfolding resolve_single_leaf [OF tt] replaceToken_minted [OF assms(4) lt] nth
      by (simp add: objGet_def objSet_def split: sum.splits)
  qed
  from toks us res show ?thesis by blast
qed


lemma showNat_1: "showNat (Suc 0) = ''1''"
  by code_simp

lemma showNat_2: "showNat (Suc (Suc 0)) = ''2''"
  by code_simp

lemma find_URL:
  "find (\<lambda>k. objGet (objSpread UIStrings []) k = Some ''URL'') (map fst (objSpread UIStrings []))
     = Some ''columnURL''"
  unfolding objSpread_none by (simp add: UIStrings_def objGet_def)

lemma key_URL: "fileScopedKey sampleEnv f ''columnURL'' = ''lighthouse-core/lib/i18n.js!#columnURL''"
  by (simp add: fileScopedKey_def objIn_def UIStrings_def sampleEnv_def)

lemma key_URL_one_line:
  "list_all (\<lambda>c. \<not> isLineTerminator c) ''lighthouse-core/lib/i18n.js!#columnURL''"
  by (simp add: isLineTerminator_def)

text \<open>
  C1, as the claim has it, fails: the registry is shared by all recorders, and a key of
  the core catalog is shared by all files. After a first file has formatted the core
  template \<^verbatim>\<open>URL\<close> once, two calls by the recorder of a second file return the
  indices 1 and 2.
\<close>

theorem second_formatter_continues_count:
  "sampleState =
     snd (createStringFormatter sampleEnv ''audits/a.js'' [] ''URL'' None (initialState sampleEnv))
   \<and> fst (mintTokens (createStringFormatter sampleEnv ''audits/b.js'' []) ''URL'' [None, None]
            sampleState)
       = Inr [''lighthouse-core/lib/i18n.js!#columnURL#1'',
              ''lighthouse-core/lib/i18n.js!#columnURL#2'']"
proof -
  have c: "createStringFormatter sampleEnv ''audits/b.js'' [] =
             formatFn sampleEnv ''audits/b.js'' (objSpread UIStrings [])"
    by (rule ext) (simp add: createStringFormatter_def)
  have n: "length (recordedUsages sampleState ''lighthouse-core/lib/i18n.js!#columnURL'') = 1"
    by (simp add: sampleState_eq recordedUsages_def)
  have u: "[0..<length [None, None :: obj option]] = [0, 1]"
    by (simp add: upt_rec)
  from mintTokens_formatFn [OF find_URL _ key_URL [symmetric],
      of "''audits/b.js''" "[None, None]" sampleState]
  have "fst (mintTokens (createStringFormatter sampleEnv ''audits/b.js'' []) ''URL'' [None, None]
            sampleState)
       = Inr [''lighthouse-core/lib/i18n.js!#columnURL#1'',
              ''lighthouse-core/lib/i18n.js!#columnURL#2'']"
    unfolding c n u by (simp add: showNat_1 showNat_2 del: mintTokens.simps)
  then show ?thesis by (simp add: sampleState_def del: mintTokens.simps)
qed

theorem mint_then_resolve_witness:
  "find (\<lambda>k. objGet (objSpread UIStrings []) k = Some ''URL'') (map fst (objSpread UIStrings []))
     = Some ''columnURL''
   \<and> list_all (\<lambda>c. \<not> isLineTerminator c) (fileScopedKey sampleEnv ''audits/a.js'' ''columnURL'')
   \<and> length (recordedUsages (initialState sampleEnv)
               (fileScopedKey sampleEnv ''audits/a.js'' ''columnURL'')) = 0
   \<and> fst (mintTokens (createStringFormatter sampleEnv ''audits/a.js'' []) ''URL''
            [None, Some [(''n'', JNum (Fin 1))]] (initialState sampleEnv))
       = Inr [''lighthouse-core/lib/i18n.js!#columnURL#0'',
              ''lighthouse-core/lib/i18n.js!#columnURL#1'']
   \<and> recordedUsages
         (snd (mintTokens (createStringFormatter sampleEnv ''audits/a.js'' []) ''URL''
                 [None, Some [(''n'', JNum (Fin 1))]] (initialState sampleEnv)))
         ''lighthouse-core/lib/i18n.js!#columnURL''
       = [\<lparr>usage_key = ''lighthouse-core/lib/i18n.js!#columnURL'', usage_template = ''URL'',
            usage_values = None\<rparr>,
          \<lparr>usage_key = ''lighthouse-core/lib/i18n.js!#columnURL'', usage_template = ''URL'',
            usage_values = Some [(''n'', JNum (Fin 1))]\<rparr>]
   \<and> fst (replaceLocaleStringReferences sampleEnv
            [(''title'', JStr ''lighthouse-core/lib/i18n.js!#columnURL#1'')] ''fr''
            (snd (mintTokens (createStringFormatter sampleEnv ''audits/a.js'' []) ''URL''
                 [None, Some [(''n'', JNum (Fin 1))]] (initialState sampleEnv))))
       = Inr [(''title'', JStr ''fr: URL''),
              (''localeLog'',
               JObj [(''lighthouse-core/lib/i18n.js!#columnURL'',
                      JObj [(''template'', JStr ''URL''),
                            (''occurrences'',
                             JArr [JObj [(''values'', JObj [(''n'', JNum (Fin 1))]),
                                         (''path'', JArr [JStr ''title''])]])])])]"
proof -
  have k: "list_all (\<lambda>c. \<not> isLineTerminator c) (fileScopedKey sampleEnv ''audits/a.js'' ''columnURL'')"
    unfolding key_URL by (rule key_URL_one_line)
  have z: "length (recordedUsages (initialState sampleEnv)
               (fileScopedKey sampleEnv ''audits/a.js'' ''columnURL'')) = 0"
    by (simp add: recordedUsages_def initialState_def)
  have f: "formatTemplate sampleEnv ''fr'' ''lighthouse-core/lib/i18n.js!#columnURL'' ''URL''
             (Some [(''n'', JNum (Fin 1))]) =
           Inr \<lparr>res_message = ''fr: URL'', res_template = ''URL''\<rparr>"
    by (simp add: formatTemplate_eq preprocessMessageValues_def templateUsed_def
        catalogTemplate_def sampleEnv_def hasStyle_def jsonCloneObj_def)
  note T = mint_then_resolve [OF find_URL _ refl k refl refl,
      where vs = "[None, Some [(''n'', JNum (Fin 1))]]" and st = "initialState sampleEnv"
        and x = "''title''" and L = "''fr''"]
  have e: "recordedUsages (initialState sampleEnv) ''lighthouse-core/lib/i18n.js!#columnURL'' = []"
    by (simp add: recordedUsages_def initialState_def)
  have T1: "fst (mintTokens (createStringFormatter sampleEnv ''audits/a.js'' []) ''URL''
            [None, Some [(''n'', JNum (Fin 1))]] (initialState sampleEnv))
       = Inr [''lighthouse-core/lib/i18n.js!#columnURL#0'',
              ''lighthouse-core/lib/i18n.js!#columnURL#1'']"
    using T [THEN conjunct1]
    by (simp add: key_URL e upt_rec showNat_0 showNat_1 del: mintTokens.simps)
  have T2: "recordedUsages
         (snd (mintTokens (createStringFormatter sampleEnv ''audits/a.js'' []) ''URL''
                 [None, Some [(''n'', JNum (Fin 1))]] (initialState sampleEnv)))
         ''lighthouse-core/lib/i18n.js!#columnURL''
       = [\<lparr>usage_key = ''lighthouse-core/lib/i18n.js!#columnURL'', usage_template = ''URL'',
            usage_values = None\<rparr>,
          \<lparr>usage_key = ''lighthouse-core/lib/i18n.js!#columnURL'', usage_template = ''URL'',
            usage_values = Some [(''n'', JNum (Fin 1))]\<rparr>]"
    using T [THEN conjunct2, THEN conjunct1]
    by (simp add: key_URL e del: mintTokens.simps)
  have T3: "fst (replaceLocaleStringReferences sampleEnv
            [(''title'', JStr ''lighthouse-core/lib/i18n.js!#columnURL#1'')] ''fr''
            (snd (mintTokens (createStringFormatter sampleEnv ''audits/a.js'' []) ''URL''
                 [None, Some [(''n'', JNum (Fin 1))]] (initialState sampleEnv))))
       = Inr [(''title'', JStr ''fr: URL''),
              (''localeLog'',
               JObj [(''lighthouse-core/lib/i18n.js!#columnURL'',
                      JObj [(''template'', JStr ''URL''),
                            (''occurrences'',
                             JArr [JObj [(''values'', JObj [(''n'', JNum (Fin 1))]),
                                         (''path'', JArr [JStr ''title''])]])])])]"
    using T [THEN conjunct2, THEN conjunct2, rule_format, of 1]
    by (simp add: key_URL e showNat_1 f objSet_def
        localeLog_not_index logToJs_def logRecordToJs_def occurrenceToJs_def
        del: mintTokens.simps)
  from find_URL k z T1 T2 T3 show ?thesis by blast
qed

subsection \<open>The audit log\<close>

lemma occurrencesOf_append:
  "occurrencesOf st key (xs @ ys) = occurrencesOf st key xs @ occurrencesOf st key ys"
  by (simp add: occurrencesOf_def List.map_filter_def)

lemma occurrencesOf_Nil: "occurrencesOf st key [] = []"
  by (simp add: occurrencesOf_def map_filter_simps)

lemma replaceToken_occurrences:
  assumes "replaceToken E st L tok lg p = Inr (v', lg')"
  shows "logOccurrences lg' key = logOccurrences lg key @ occurrencesOf st key [(p, tok)]"
proof -
  from replaceToken_Inr [OF assms] obtain k i u and res :: formatted where
    h: "matchUsage tok = Some (k, i)" "arrayGet (recordedUsages st k) i = Some u"
       "lg' = objSet lg k
                \<lparr>log_template = res_template res,
                 log_occurrences = (case objGet lg k of None \<Rightarrow> [] | Some r \<Rightarrow> log_occurrences r)
                    @ [\<lparr>occ_values = usage_values u, occ_path = p\<rparr>]\<rparr>"
    by blast
  have o: "occurrencesOf st key [(p, tok)] =
             (if k = key then [\<lparr>occ_values = usage_values u, occ_path = p\<rparr>] else [])"
    by (simp add: occurrencesOf_def map_filter_simps occurrenceOf_def h(1,2))
  show ?thesis
    unfolding o h(3) by (simp add: logOccurrences_def objGet_objSet)
qed

lemma logGrows_Nil: "logGrows st lg lg []"
  by (simp add: logGrows_def List.map_filter_def)

lemma map_filter_append:
  "List.map_filter f (xs @ ys) = List.map_filter f xs @ List.map_filter f ys"
  by (simp add: List.map_filter_def)

lemma logGrows_append:
  assumes "logGrows st lg lg1 xs" and "logGrows st lg1 lg2 ys"
  shows "logGrows st lg lg2 (xs @ ys)"
proof -
  from assms have d: "distinct (map fst lg) \<longrightarrow> distinct (map fst lg2)"
    by (simp add: logGrows_def)
  from assms have k: "fst ` set lg2 = fst ` set lg
      \<union> fst ` set (List.map_filter (occurrenceOf st) (xs @ ys))"
    by (simp add: logGrows_def map_filter_append image_Un Un_assoc)
  from assms have a: "list_all (\<lambda>leaf. occurrenceOf st leaf \<noteq> None) (xs @ ys)"
    by (simp add: logGrows_def)
  from d k a show ?thesis unfolding logGrows_def by blast
qed

lemma replaceToken_logGrows:
  assumes "replaceToken E st L tok lg p = Inr (v', lg')"
  shows "logGrows st lg lg' [(p, tok)]"
proof -
  from replaceToken_Inr [OF assms] obtain k i u and res :: formatted where
    h: "matchUsage tok = Some (k, i)" "arrayGet (recordedUsages st k) i = Some u"
       "lg' = objSet lg k
                \<lparr>log_template = res_template res,
                 log_occurrences = (case objGet lg k of None \<Rightarrow> [] | Some r \<Rightarrow> log_occurrences r)
                    @ [\<lparr>occ_values = usage_values u, occ_path = p\<rparr>]\<rparr>"
    by blast
  show ?thesis
    unfolding h(3) logGrows_def
    by (simp add: distinct_objSet keys_objSet List.map_filter_def occurrenceOf_def h(1,2))
qed

lemma replaceInObject_occurrences:
  "replaceInObject E st L v lg p = Inr (v', lg') \<Longrightarrow>
     logOccurrences lg' key = logOccurrences lg key @ occurrencesOf st key (tokenLeaves p v)"
  "replaceInEntries E st L ob lg p = Inr (ob', lg') \<Longrightarrow>
     logOccurrences lg' key = logOccurrences lg key @ occurrencesOf st key (tokenLeavesEntries p ob)"
  "replaceInElems E st L i xs lg p = Inr (xs', lg') \<Longrightarrow>
     logOccurrences lg' key = logOccurrences lg key @ occurrencesOf st key (tokenLeavesElems p i xs)"
proof (induction E st L v lg p and E st L ob lg p and E st L i xs lg p
    arbitrary: v' lg' and ob' lg' and xs' lg'
    rule: replaceInObject_replaceInEntries_replaceInElems.induct)
  case (1 E st L ob lg path)
  then show ?case by (auto split: sum.splits)
next
  case (2 E st L xs lg path)
  then show ?case by (auto split: sum.splits)
next
  case (5 E st L k v rest lg path)
  let ?step = "if isTokenString v then replaceToken E st L (tokenText v) lg (path @ [k])
               else replaceInObject E st L v lg (path @ [k])"
  from 5(3) obtain v1 lg1 rest1 where
    s: "?step = Inr (v1, lg1)" and r: "replaceInEntries E st L rest lg1 path = Inr (rest1, lg')"
    by (auto split: sum.splits)
  have a: "logOccurrences lg1 key = logOccurrences lg key
             @ occurrencesOf st key (if isTokenString v then [(path @ [k], tokenText v)]
                                      else tokenLeaves (path @ [k]) v)"
  proof (cases "isTokenString v")
    case True
    with s show ?thesis by (simp add: replaceToken_occurrences)
  next
    case False
    with s 5(1) [OF False] show ?thesis by simp
  qed
  have b: "logOccurrences lg' key = logOccurrences lg1 key
             @ occurrencesOf st key (tokenLeavesEntries path rest)"
    by (rule 5(2) [OF s refl r])
  show ?case by (simp add: a b occurrencesOf_append)
next
  case (7 E st L i v rest lg path)
  let ?step = "if isTokenString v then replaceToken E st L (tokenText v) lg (path @ [showNat i])
               else replaceInObject E st L v lg (path @ [showNat i])"
  from 7(3) obtain v1 lg1 rest1 where
    s: "?step = Inr (v1, lg1)" and r: "replaceInElems E st L (Suc i) rest lg1 path = Inr (rest1, lg')"
    by (auto split: sum.splits)
  have a: "logOccurrences lg1 key = logOccurrences lg key
             @ occurrencesOf st key (if isTokenString v then [(path @ [showNat i], tokenText v)]
                                      else tokenLeaves (path @ [showNat i]) v)"
  proof (cases "isTokenString v")
    case True
    with s show ?thesis by (simp add: replaceToken_occurrences)
  next
    case False
    with s 7(1) [OF False] show ?thesis by simp
  qed
  have b: "logOccurrences lg' key = logOccurrences lg1 key
             @ occurrencesOf st key (tokenLeavesElems path (Suc i) rest)"
    by (rule 7(2) [OF s refl r])
  show ?case by (simp add: a b occurrencesOf_append)
qed (simp_all add: occurrencesOf_Nil)


lemma replaceInObject_logGrows:
  "replaceInObject E st L v lg p = Inr (v', lg') \<Longrightarrow> logGrows st lg lg' (tokenLeaves p v)"
  "replaceInEntries E st L ob lg p = Inr (ob', lg') \<Longrightarrow> logGrows st lg lg' (tokenLeavesEntries p ob)"
  "replaceInElems E st L i xs lg p = Inr (xs', lg') \<Longrightarrow> logGrows st lg lg' (tokenLeavesElems p i xs)"
proof (induction E st L v lg p and E st L ob lg p and E st L i xs lg p
    arbitrary: v' lg' and ob' lg' and xs' lg'
    rule: replaceInObject_replaceInEntries_replaceInElems.induct)
  case (1 E st L ob lg path)
  then show ?case by (auto split: sum.splits)
next
  case (2 E st L xs lg path)
  then show ?case by (auto split: sum.splits)
next
  case (5 E st L k v rest lg path)
  let ?step = "if isTokenString v then replaceToken E st L (tokenText v) lg (path @ [k])
               else replaceInObject E st L v lg (path @ [k])"
  from 5(3) obtain v1 lg1 rest1 where
    s: "?step = Inr (v1, lg1)" and r: "replaceInEntries E st L rest lg1 path = Inr (rest1, lg')"
    by (auto split: sum.splits)
  have a: "logGrows st lg lg1 (if isTokenString v then [(path @ [k], tokenText v)]
                                else tokenLeaves (path @ [k]) v)"
  proof (cases "isTokenString v")
    case True
    with s show ?thesis by (simp add: replaceToken_logGrows)
  next
    case False
    with s 5(1) [OF False] show ?thesis by simp
  qed
  have b: "logGrows st lg1 lg' (tokenLeavesEntries path rest)"
    by (rule 5(2) [OF s refl r])
  from logGrows_append [OF a b] show ?case by simp
next
  case (7 E st L i v rest lg path)
  let ?step = "if isTokenString v then replaceToken E st L (tokenText v) lg (path @ [showNat i])
               else replaceInObject E st L v lg (path @ [showNat i])"
  from 7(3) obtain v1 lg1 rest1 where
    s: "?step = Inr (v1, lg1)" and r: "replaceInElems E st L (Suc i) rest lg1 path = Inr (rest1, lg')"
    by (auto split: sum.splits)
  have a: "logGrows st lg lg1 (if isTokenString v then [(path @ [showNat i], tokenText v)]
                                else tokenLeaves (path @ [showNat i]) v)"
  proof (cases "isTokenString v")
    case True
    with s show ?thesis by (simp add: replaceToken_logGrows)
  next
    case False
    with s 7(1) [OF False] show ?thesis by simp
  qed
  have b: "logGrows st lg1 lg' (tokenLeavesElems path (Suc i) rest)"
    by (rule 7(2) [OF s refl r])
  from logGrows_append [OF a b] show ?case by simp
qed (simp_all add: logGrows_Nil)

text \<open>
  C9. After a pass that succeeds, the report holds the log under \<^verbatim>\<open>localeLog\<close>; the
  log has one entry for each key that a token of the report names and no two entries
  for one key; every token leaf names a Usage Record; and the occurrences of a key are,
  in the order of the traversal, one for each token leaf of that key, with the values
  of the leaf's Usage Record and the keys and indices from the root to the leaf. Two
  leaves with the same key at different paths so give two occurrences, each with its
  path, in the one entry of the key.
\<close>

theorem occurrences_logged:
  assumes "fst (replaceLocaleStringReferences E lhr L st) = Inr lhr'"
  shows "\<exists>lg. objGet lhr' ''localeLog'' = Some (logToJs lg)
          \<and> distinct (map fst lg)
          \<and> fst ` set lg = fst ` set (List.map_filter (occurrenceOf st) (tokenLeavesEntries [] lhr))
          \<and> list_all (\<lambda>leaf. occurrenceOf st leaf \<noteq> None) (tokenLeavesEntries [] lhr)
          \<and> (\<forall>key. logOccurrences lg key = occurrencesOf st key (tokenLeavesEntries [] lhr))"
proof -
  from assms obtain body lg where
    r: "replaceInEntries E st L lhr [] [] = Inr (body, lg)"
    and l: "lhr' = objSet body ''localeLog'' (logToJs lg)"
    by (auto simp: replaceLocaleStringReferences_def split: sum.splits)
  from replaceInObject_logGrows(2) [OF r] have g: "logGrows st [] lg (tokenLeavesEntries [] lhr)" .
  have o: "logOccurrences lg key = occurrencesOf st key (tokenLeavesEntries [] lhr)" for key
    using replaceInObject_occurrences(2) [OF r, of key] by (simp add: logOccurrences_def objGet_def)
  have "objGet lhr' ''localeLog'' = Some (logToJs lg)"
    by (simp add: l objGet_objSet)
  with g o show ?thesis by (auto simp: logGrows_def)
qed


lemma sampleReport_resolved:
  "fst (replaceLocaleStringReferences sampleEnv sampleReport ''fr'' sampleState) =
     Inr [(''audits'',
           JObj [(''a'', JObj [(''displayValue'', JStr ''fr: URL'')]),
                 (''b'', JObj [(''displayValue'', JStr ''fr: URL''),
                               (''score'', JNum (Fin 1)),
                               (''note'', JStr ''issue #12'')])]),
          (''localeLog'',
           logToJs [(''lighthouse-core/lib/i18n.js!#columnURL'',
                     \<lparr>log_template = ''URL'',
                      log_occurrences =
                        [\<lparr>occ_values = None, occ_path = [''audits'', ''a'', ''displayValue'']\<rparr>,
                         \<lparr>occ_values = None, occ_path = [''audits'', ''b'', ''displayValue'']\<rparr>]\<rparr>)])]"
proof -
  have u: "recordedUsages sampleState ''lighthouse-core/lib/i18n.js!#columnURL'' =
     [\<lparr>usage_key = ''lighthouse-core/lib/i18n.js!#columnURL'', usage_template = ''URL'',
            usage_values = None\<rparr>]"
    by (simp add: recordedUsages_def sampleState_eq)
  have r: "replaceToken sampleEnv sampleState ''fr'' ''lighthouse-core/lib/i18n.js!#columnURL#0'' lg p =
     Inr (JStr ''fr: URL'',
          objSet lg ''lighthouse-core/lib/i18n.js!#columnURL''
            \<lparr>log_template = ''URL'',
             log_occurrences =
               (case objGet lg ''lighthouse-core/lib/i18n.js!#columnURL'' of None \<Rightarrow> []
                | Some r \<Rightarrow> log_occurrences r)
               @ [\<lparr>occ_values = None, occ_path = p\<rparr>]\<rparr>)" for lg p
    by (simp add: replaceToken_alt matchUsage_sample u arrayGet_0 formatTemplate_sample_fr)
  show ?thesis
    by (simp add: replaceLocaleStringReferences_def sampleReport_def isTokenString_def
        tokenText_def testToken_sample testToken_issue r objGet_def objSet_def
        localeLog_not_index)
qed

theorem occurrences_logged_witness:
  "\<exists>lhr'. fst (replaceLocaleStringReferences sampleEnv sampleReport ''fr'' sampleState) = Inr lhr'
     \<and> (\<exists>lg. objGet lhr' ''localeLog'' = Some (logToJs lg)
           \<and> distinct (map fst lg)
           \<and> fst ` set lg = {''lighthouse-core/lib/i18n.js!#columnURL''}
           \<and> logOccurrences lg ''lighthouse-core/lib/i18n.js!#columnURL'' =
                [\<lparr>occ_values = None, occ_path = [''audits'', ''a'', ''displayValue'']\<rparr>,
                 \<lparr>occ_values = None, occ_path = [''audits'', ''b'', ''displayValue'']\<rparr>])"
proof -
  have u: "recordedUsages sampleState ''lighthouse-core/lib/i18n.js!#columnURL'' =
     [\<lparr>usage_key = ''lighthouse-core/lib/i18n.js!#columnURL'', usage_template = ''URL'',
            usage_values = None\<rparr>]"
    by (simp add: recordedUsages_def sampleState_eq)
  have o: "occurrenceOf sampleState (p, ''lighthouse-core/lib/i18n.js!#columnURL#0'') =
             Some (''lighthouse-core/lib/i18n.js!#columnURL'', \<lparr>occ_values = None, occ_path = p\<rparr>)"
    for p
    by (simp add: occurrenceOf_def matchUsage_sample u arrayGet_0)
  have m: "List.map_filter (occurrenceOf sampleState) (tokenLeavesEntries [] sampleReport) =
      [(''lighthouse-core/lib/i18n.js!#columnURL'',
        \<lparr>occ_values = None, occ_path = [''audits'', ''a'', ''displayValue'']\<rparr>),
       (''lighthouse-core/lib/i18n.js!#columnURL'',
        \<lparr>occ_values = None, occ_path = [''audits'', ''b'', ''displayValue'']\<rparr>)]"
    by (simp add: tokenLeaves_sampleReport List.map_filter_def o)
  from occurrences_logged [OF sampleReport_resolved] obtain lg where
    h: "objGet [(''audits'',
           JObj [(''a'', JObj [(''displayValue'', JStr ''fr: URL'')]),
                 (''b'', JObj [(''displayValue'', JStr ''fr: URL''),
                               (''score'', JNum (Fin 1)),
                               (''note'', JStr ''issue #12'')])]),
          (''localeLog'',
           logToJs [(''lighthouse-core/lib/i18n.js!#columnURL'',
                     \<lparr>log_template = ''URL'',
                      log_occurrences =
                        [\<lparr>occ_values = None, occ_path = [''audits'', ''a'', ''displayValue'']\<rparr>,
                         \<lparr>occ_values = None, occ_path = [''audits'', ''b'', ''displayValue'']\<rparr>]\<rparr>)])]
          ''localeLog'' = Some (logToJs lg)"
       "distinct (map fst lg)"
       "fst ` set lg = fst ` set (List.map_filter (occurrenceOf sampleState)
                                   (tokenLeavesEntries [] sampleReport))"
       "\<forall>key. logOccurrences lg key = occurrencesOf sampleState key (tokenLeavesEntries [] sampleReport)"
    by blast
  from h(3) have k: "fst ` set lg = {''lighthouse-core/lib/i18n.js!#columnURL''}"
    by (simp add: m)
  from h(4) have c: "logOccurrences lg ''lighthouse-core/lib/i18n.js!#columnURL'' =
                [\<lparr>occ_values = None, occ_path = [''audits'', ''a'', ''displayValue'']\<rparr>,
                 \<lparr>occ_values = None, occ_path = [''audits'', ''b'', ''displayValue'']\<rparr>]"
    by (simp add: occurrencesOf_def m)
  from sampleReport_resolved h(1,2) k c show ?thesis by blast
qed

subsection \<open>What a pass leaves as it was\<close>

lemma matchUsage_Some:
  assumes "matchUsage s = Some (k, d)"
  shows "\<exists>pre. s = pre @ k @ ''#'' @ d \<and> d \<noteq> [] \<and> list_all isDigit d
           \<and> list_all (\<lambda>c. \<not> isLineTerminator c) k"
proof -
  let ?ds = "rev (takeWhile isDigit (rev s))"
  let ?front = "rev (dropWhile isDigit (rev s))"
  from assms have ne: "?ds \<noteq> []" "?front \<noteq> []" "last ?front = CHR ''#''"
    and k: "k = rev (takeWhile (\<lambda>c. \<not> isLineTerminator c) (rev (butlast ?front)))"
    and d: "d = ?ds"
    by (auto simp: matchUsage_def Let_def split: if_splits)
  have s: "s = ?front @ ?ds"
    by (metis rev_append rev_rev_ident takeWhile_dropWhile_id)
  have f: "?front = butlast ?front @ ''#''"
    using ne(2,3) by (metis append_butlast_last_id)
  have b: "butlast ?front = rev (dropWhile (\<lambda>c. \<not> isLineTerminator c) (rev (butlast ?front))) @ k"
    unfolding k by (metis rev_append rev_rev_ident takeWhile_dropWhile_id)
  have dg: "list_all isDigit d"
    unfolding d by (auto simp: list_all_iff dest: set_takeWhileD)
  have nl: "list_all (\<lambda>c. \<not> isLineTerminator c) k"
    unfolding k by (auto simp: list_all_iff dest: set_takeWhileD)
  have "s = rev (dropWhile (\<lambda>c. \<not> isLineTerminator c) (rev (butlast ?front))) @ k @ ''#'' @ d"
    using s f b d by (metis append.assoc)
  with ne(1) d dg nl show ?thesis by blast
qed

lemma hasBangHash_split: "hasBangHash s \<Longrightarrow> \<exists>a b. s = a @ ''!#'' @ b"
proof (induction s rule: hasBangHash.induct)
  case (1 a b cs)
  show ?case
  proof (cases "a = CHR ''!'' \<and> b = CHR ''#''")
    case True
    then have "a # b # cs = [] @ ''!#'' @ cs" by simp
    then show ?thesis by blast
  next
    case False
    with 1 obtain x y where "b # cs = x @ ''!#'' @ y" by auto
    then have "a # b # cs = (a # x) @ ''!#'' @ y" by simp
    then show ?thesis by blast
  qed
qed simp_all

lemma testToken_shape: "testToken s \<Longrightarrow> tokenShape s"
proof -
  assume "testToken s"
  then obtain k d where m: "matchUsage s = Some (k, d)" and h: "hasBangHash k"
    by (auto simp: testToken_def split: option.splits)
  from matchUsage_Some [OF m] obtain pre where
    s: "s = pre @ k @ ''#'' @ d" "d \<noteq> []" "list_all isDigit d" by blast
  from hasBangHash_split [OF h] obtain a b where "k = a @ ''!#'' @ b" by blast
  with s have "s = (pre @ a) @ ''!#'' @ b @ ''#'' @ d" by simp
  with s(2,3) show ?thesis unfolding tokenShape_def by blast
qed

lemma tokenShape_bang: "tokenShape s \<Longrightarrow> CHR ''!'' \<in> set s"
  by (auto simp: tokenShape_def)

lemma replaceToken_string:
  "replaceToken E st L tok lg p = Inr (v', lg') \<Longrightarrow> \<exists>m. v' = JStr m"
  by (auto dest: replaceToken_Inr)

lemma replaceInObject_frame:
  "replaceInObject E st L v lg p = Inr (v', lg') \<Longrightarrow> unchangedBut tokenShape v v'"
  "replaceInEntries E st L ob lg p = Inr (ob', lg') \<Longrightarrow> unchangedButEntries tokenShape ob ob'"
  "replaceInElems E st L i xs lg p = Inr (xs', lg') \<Longrightarrow> unchangedButElems tokenShape xs xs'"
proof (induction E st L v lg p and E st L ob lg p and E st L i xs lg p
    arbitrary: v' lg' and ob' lg' and xs' lg'
    rule: replaceInObject_replaceInEntries_replaceInElems.induct)
  case (1 E st L ob lg path)
  then show ?case by (auto split: sum.splits)
next
  case (2 E st L xs lg path)
  then show ?case by (auto split: sum.splits)
next
  case (5 E st L k v rest lg path)
  let ?step = "if isTokenString v then replaceToken E st L (tokenText v) lg (path @ [k])
               else replaceInObject E st L v lg (path @ [k])"
  from 5(3) obtain v1 lg1 rest1 where
    s: "?step = Inr (v1, lg1)" and r: "replaceInEntries E st L rest lg1 path = Inr (rest1, lg')"
    and o: "ob' = (k, v1) # rest1"
    by (auto split: sum.splits)
  have a: "unchangedBut tokenShape v v1"
  proof (cases "isTokenString v")
    case True
    then obtain t where v: "v = JStr t" "testToken t"
      by (auto simp: isTokenString_def split: jsval.splits)
    from True s have "replaceToken E st L (tokenText v) lg (path @ [k]) = Inr (v1, lg1)" by simp
    from replaceToken_string [OF this] obtain m where "v1 = JStr m" by blast
    with v show ?thesis by (simp add: testToken_shape)
  next
    case False
    with s 5(1) [OF False] show ?thesis by simp
  qed
  have b: "unchangedButEntries tokenShape rest rest1"
    by (rule 5(2) [OF s refl r])
  show ?case by (simp add: o a b)
next
  case (7 E st L i v rest lg path)
  let ?step = "if isTokenString v then replaceToken E st L (tokenText v) lg (path @ [showNat i])
               else replaceInObject E st L v lg (path @ [showNat i])"
  from 7(3) obtain v1 lg1 rest1 where
    s: "?step = Inr (v1, lg1)" and r: "replaceInElems E st L (Suc i) rest lg1 path = Inr (rest1, lg')"
    and o: "xs' = v1 # rest1"
    by (auto split: sum.splits)
  have a: "unchangedBut tokenShape v v1"
  proof (cases "isTokenString v")
    case True
    then obtain t where v: "v = JStr t" "testToken t"
      by (auto simp: isTokenString_def split: jsval.splits)
    from True s have "replaceToken E st L (tokenText v) lg (path @ [showNat i]) = Inr (v1, lg1)"
      by simp
    from replaceToken_string [OF this] obtain m where "v1 = JStr m" by blast
    with v show ?thesis by (simp add: testToken_shape)
  next
    case False
    with s 7(1) [OF False] show ?thesis by simp
  qed
  have b: "unchangedButElems tokenShape rest rest1"
    by (rule 7(2) [OF s refl r])
  show ?case by (simp add: o a b)
qed auto


lemma unchangedButEntries_get:
  "unchangedButEntries P ob ob' \<Longrightarrow> objGet ob k = Some w \<Longrightarrow>
     \<exists>w'. objGet ob' k = Some w' \<and> unchangedBut P w w'"
proof (induction ob arbitrary: ob')
  case Nil
  then show ?case by (simp add: objGet_def)
next
  case (Cons e ob)
  obtain k0 v0 where e: "e = (k0, v0)" by (cases e)
  from Cons.prems(1) e obtain v1 rest1 where
    o: "ob' = (k0, v1) # rest1" "unchangedBut P v0 v1" "unchangedButEntries P ob rest1"
    by (auto split: list.splits)
  show ?case
  proof (cases "k = k0")
    case True
    with Cons.prems(2) e o show ?thesis by (simp add: objGet_def)
  next
    case False
    with Cons.prems(2) e have "objGet ob k = Some w" by (simp add: objGet_def)
    from Cons.IH [OF o(3) this] False o(1) show ?thesis by (simp add: objGet_def)
  qed
qed

lemma unchangedButElems_nth:
  "unchangedButElems P xs xs' \<Longrightarrow>
     length xs' = length xs \<and> (\<forall>i < length xs. unchangedBut P (xs ! i) (xs' ! i))"
proof (induction xs arbitrary: xs')
  case Nil
  then show ?case by simp
next
  case (Cons x xs)
  from Cons.prems obtain y ys where
    o: "xs' = y # ys" "unchangedBut P x y" "unchangedButElems P xs ys"
    by (auto split: list.splits)
  from Cons.IH [OF o(3)] o(1,2) show ?case by (auto simp: nth_Cons split: nat.splits)
qed

lemma unchangedButElems_get:
  assumes "unchangedButElems P xs xs'" and "arrayGet xs k = Some w"
  shows "\<exists>w'. arrayGet xs' k = Some w' \<and> unchangedBut P w w'"
proof -
  from assms(2) have c: "showNat (parseNat k) = k" "parseNat k < length xs" "w = xs ! parseNat k"
    by (auto simp: arrayGet_def Let_def split: if_splits)
  from unchangedButElems_nth [OF assms(1)] c(2) have
    "length xs' = length xs" "unchangedBut P (xs ! parseNat k) (xs' ! parseNat k)" by auto
  with c show ?thesis by (simp add: arrayGet_def Let_def)
qed

lemma unchangedBut_leaf:
  "unchangedBut tokenShape v v' \<Longrightarrow> isLeaf v \<Longrightarrow> \<not> shapedString v \<Longrightarrow> v' = v"
  by (cases v) (auto simp: isLeaf_def shapedString_def)

lemma unchangedBut_valueAt:
  "unchangedBut tokenShape v v' \<Longrightarrow> valueAt v ks = Some w \<Longrightarrow> isLeaf w \<Longrightarrow> \<not> shapedString w
     \<Longrightarrow> valueAt v' ks = Some w"
proof (induction ks arbitrary: v v')
  case Nil
  then show ?case using unchangedBut_leaf [of v v'] by simp
next
  case (Cons k ks)
  show ?case
  proof (cases v)
    case (JObj ob)
    with Cons.prems(1) obtain ob' where v': "v' = JObj ob'" and u: "unchangedButEntries tokenShape ob ob'"
      by (auto split: jsval.splits)
    from Cons.prems(2) JObj obtain w1 where g: "objGet ob k = Some w1" and a: "valueAt w1 ks = Some w"
      by (auto split: option.splits)
    from unchangedButEntries_get [OF u g] obtain w1' where
      g': "objGet ob' k = Some w1'" and u1: "unchangedBut tokenShape w1 w1'" by blast
    from Cons.IH [OF u1 a Cons.prems(3,4)] g' v' show ?thesis by simp
  next
    case (JArr xs)
    with Cons.prems(1) obtain xs' where v': "v' = JArr xs'" and u: "unchangedButElems tokenShape xs xs'"
      by (auto split: jsval.splits)
    from Cons.prems(2) JArr obtain w1 where g: "arrayGet xs k = Some w1" and a: "valueAt w1 ks = Some w"
      by (auto split: option.splits)
    from unchangedButElems_get [OF u g] obtain w1' where
      g': "arrayGet xs' k = Some w1'" and u1: "unchangedBut tokenShape w1 w1'" by blast
    from Cons.IH [OF u1 a Cons.prems(3,4)] g' v' show ?thesis by simp
  qed (use Cons.prems(2) in simp_all)
qed

text \<open>
  C7. A pass that succeeds returns the report it was given with the field
  \<^verbatim>\<open>localeLog\<close> set at the top level, and otherwise the same tree (the same
  containers, keys and order) but for string leaves of the token shape, which hold a
  string again. So every leaf outside \<^verbatim>\<open>localeLog\<close> that is no string, or a string
  not of the token shape (one that ends in \<^verbatim>\<open>#\<close> and digits and has no \<^verbatim>\<open>!#\<close>,
  say), is found at its path with the value it had.
\<close>

theorem resolution_frame:
  assumes "fst (replaceLocaleStringReferences E lhr L st) = Inr lhr'"
  shows "(\<exists>body lg. lhr' = objSet body ''localeLog'' (logToJs lg)
            \<and> unchangedButEntries tokenShape lhr body)
       \<and> (\<forall>k ks v. k \<noteq> ''localeLog'' \<and> valueAt (JObj lhr) (k # ks) = Some v
              \<and> isLeaf v \<and> \<not> shapedString v
            \<longrightarrow> valueAt (JObj lhr') (k # ks) = Some v)"
proof -
  from assms obtain body lg where
    r: "replaceInEntries E st L lhr [] [] = Inr (body, lg)"
    and l: "lhr' = objSet body ''localeLog'' (logToJs lg)"
    by (auto simp: replaceLocaleStringReferences_def split: sum.splits)
  from replaceInObject_frame(2) [OF r] have u: "unchangedButEntries tokenShape lhr body" .
  have "valueAt (JObj lhr') (k # ks) = Some v"
    if h: "k \<noteq> ''localeLog''" "valueAt (JObj lhr) (k # ks) = Some v" "isLeaf v" "\<not> shapedString v"
    for k ks v
  proof -
    from u have "unchangedBut tokenShape (JObj lhr) (JObj body)" by simp
    from unchangedBut_valueAt [OF this h(2,3,4)] have "valueAt (JObj body) (k # ks) = Some v" .
    with h(1) show ?thesis by (simp add: l objGet_objSet)
  qed
  with l u show ?thesis by blast
qed

theorem resolution_frame_witness:
  "\<exists>lhr'. fst (replaceLocaleStringReferences sampleEnv sampleReport ''fr'' sampleState) = Inr lhr'
     \<and> valueAt (JObj sampleReport) [''audits'', ''b'', ''note''] = Some (JStr ''issue #12'')
     \<and> \<not> shapedString (JStr ''issue #12'')
     \<and> valueAt (JObj lhr') [''audits'', ''b'', ''note''] = Some (JStr ''issue #12'')
     \<and> valueAt (JObj lhr') [''audits'', ''b'', ''score''] = Some (JNum (Fin 1))
     \<and> valueAt (JObj lhr') [''audits'', ''b'', ''displayValue''] = Some (JStr ''fr: URL'')
     \<and> (\<exists>body lg. lhr' = objSet body ''localeLog'' (logToJs lg)
            \<and> unchangedButEntries tokenShape sampleReport body)"
proof -
  let ?R = "[(''audits'',
           JObj [(''a'', JObj [(''displayValue'', JStr ''fr: URL'')]),
                 (''b'', JObj [(''displayValue'', JStr ''fr: URL''),
                               (''score'', JNum (Fin 1)),
                               (''note'', JStr ''issue #12'')])]),
          (''localeLog'',
           logToJs [(''lighthouse-core/lib/i18n.js!#columnURL'',
                     \<lparr>log_template = ''URL'',
                      log_occurrences =
                        [\<lparr>occ_values = None, occ_path = [''audits'', ''a'', ''displayValue'']\<rparr>,
                         \<lparr>occ_values = None, occ_path = [''audits'', ''b'', ''displayValue'']\<rparr>]\<rparr>)])]"
  note T = resolution_frame [OF sampleReport_resolved]
  have n: "valueAt (JObj sampleReport) [''audits'', ''b'', ''note''] = Some (JStr ''issue #12'')"
    by (simp add: sampleReport_def objGet_def)
  have sc: "valueAt (JObj sampleReport) [''audits'', ''b'', ''score''] = Some (JNum (Fin 1))"
    by (simp add: sampleReport_def objGet_def)
  have ns: "\<not> shapedString (JStr ''issue #12'')"
    using tokenShape_bang [of "''issue #12''"] by (auto simp: shapedString_def)
  from T n ns have a: "valueAt (JObj ?R) [''audits'', ''b'', ''note''] = Some (JStr ''issue #12'')"
    by (simp add: isLeaf_def)
  from T sc have b: "valueAt (JObj ?R) [''audits'', ''b'', ''score''] = Some (JNum (Fin 1))"
    by (simp add: isLeaf_def shapedString_def)
  have c: "valueAt (JObj ?R) [''audits'', ''b'', ''displayValue''] = Some (JStr ''fr: URL'')"
    by (simp add: objGet_def)
  from T have d: "\<exists>body lg. ?R = objSet body ''localeLog'' (logToJs lg)
            \<and> unchangedButEntries tokenShape sampleReport body" by blast
  from sampleReport_resolved n ns a b c d show ?thesis by blast
qed

subsection \<open>Values: stored, copied and preprocessed\<close>

lemma replaceLocaleStringReferences_state:
  "snd (replaceLocaleStringReferences E lhr L st) = st"
  by (simp add: replaceLocaleStringReferences_def split: sum.splits prod.splits)

lemma resolvePasses_eq:
  "resolvePasses E lhr Ls st = (map (\<lambda>L. fst (replaceLocaleStringReferences E lhr L st)) Ls, st)"
proof (induction Ls)
  case Nil
  then show ?case by simp
next
  case (Cons L Ls)
  obtain r where r: "replaceLocaleStringReferences E lhr L st = (r, st)"
    using replaceLocaleStringReferences_state [of E lhr L st]
    by (cases "replaceLocaleStringReferences E lhr L st") simp
  show ?case by (simp add: r Cons)
qed

lemma jsonClone_isJson:
  "isJson v \<Longrightarrow> jsonClone v = v"
proof (induction v rule: jsonClone.induct)
  case (1 n)
  then show ?case by (cases n) simp_all
next
  case (2 xs)
  have "map (\<lambda>v. if v = JUndefined then JNull else jsonClone v) xs = xs"
  proof (rule map_idI)
    fix v assume v: "v \<in> set xs"
    with 2(2) have "isJson v" by (simp add: list_all_iff)
    with 2(1) [OF v] show "(if v = JUndefined then JNull else jsonClone v) = v" by auto
  qed
  then show ?case by simp
next
  case (3 ob)
  have f: "filter (\<lambda>(k, v). v \<noteq> JUndefined) ob = ob"
    using 3(2) by (auto simp: list_all_iff filter_id_conv)
  have "map (\<lambda>(k, v). (k, jsonClone v)) ob = ob"
  proof (rule map_idI)
    fix e assume e: "e \<in> set ob"
    obtain k v where kv: "e = (k, v)" by (cases e)
    from e kv 3(2) have j: "isJson v" by (auto simp: list_all_iff)
    from e kv f have "(k, v) \<in> set (filter (\<lambda>(k, v). v \<noteq> JUndefined) ob)" by simp
    from 3(1) [OF this refl j] kv show "(case e of (k, v) \<Rightarrow> (k, jsonClone v)) = e" by simp
  qed
  with f show ?case by simp
qed simp_all

lemma jsonCloneObj_isJson:
  "list_all (\<lambda>(k, v). isJson v) vs \<Longrightarrow> jsonCloneObj vs = vs"
  using jsonClone_isJson [of "JObj vs"] by (simp add: jsonCloneObj_def)

lemma roundToTen_multiple: "\<exists>n::int. roundToTen x = 10 * of_int n"
  by (auto simp: roundToTen_def)

lemma roundToTen_nearest: "\<bar>roundToTen x - x\<bar> \<le> 5"
proof -
  let ?n = "\<lfloor>x / 10 + 1 / 2\<rfloor>"
  have "of_int ?n \<le> x / 10 + 1 / 2" "x / 10 + 1 / 2 < of_int ?n + 1" by linarith+
  then have "of_int ?n * 10 - x \<le> 5" "x - of_int ?n * 10 \<le> 5" by linarith+
  then show ?thesis unfolding roundToTen_def by (simp add: abs_le_iff)
qed


lemma map_fst_objSet: "k \<in> fst ` set c \<Longrightarrow> map fst (objSet c k v) = map fst c"
  by (simp add: objSet_def map_fst_update)

lemma foldl_objSet_update:
  assumes "distinct (map elId els)" and "elId ` set els \<subseteq> fst ` set c"
  shows "map fst (foldl (\<lambda>c el. objSet c (elId el) (g (objGet c (elId el)))) c els) = map fst c
       \<and> (\<forall>k. objGet (foldl (\<lambda>c el. objSet c (elId el) (g (objGet c (elId el)))) c els) k =
               (if k \<in> elId ` set els then Some (g (objGet c k)) else objGet c k))"
  using assms
proof (induction els arbitrary: c)
  case Nil
  then show ?case by simp
next
  case (Cons el els)
  let ?c1 = "objSet c (elId el) (g (objGet c (elId el)))"
  from Cons.prems have m: "elId el \<in> fst ` set c" by simp
  have k1: "map fst ?c1 = map fst c" by (rule map_fst_objSet [OF m])
  then have "fst ` set ?c1 = fst ` set c" by (metis set_map)
  with Cons.prems have p: "distinct (map elId els)" "elId ` set els \<subseteq> fst ` set ?c1" by auto
  from Cons.prems have n: "elId el \<notin> elId ` set els" by auto
  from Cons.IH [OF p] have
    a: "map fst (foldl (\<lambda>c el. objSet c (elId el) (g (objGet c (elId el)))) ?c1 els) = map fst ?c1"
    and b: "\<And>k. objGet (foldl (\<lambda>c el. objSet c (elId el) (g (objGet c (elId el)))) ?c1 els) k =
               (if k \<in> elId ` set els then Some (g (objGet ?c1 k)) else objGet ?c1 k)"
    by auto
  show ?case
  proof (intro conjI allI)
    show "map fst (foldl (\<lambda>c el. objSet c (elId el) (g (objGet c (elId el)))) c (el # els)) = map fst c"
      using a k1 by simp
  next
    fix k
    show "objGet (foldl (\<lambda>c el. objSet c (elId el) (g (objGet c (elId el)))) c (el # els)) k =
               (if k \<in> elId ` set (el # els) then Some (g (objGet c k)) else objGet c k)"
      using b [of k] n by (auto simp: objGet_objSet)
  qed
qed

lemma map_of_clone:
  "distinct (map fst vs) \<Longrightarrow>
   map_of (map (\<lambda>(k, v). (k, f v)) (filter (\<lambda>(k, v). P v) vs)) k =
     (case map_of vs k of None \<Rightarrow> None | Some v \<Rightarrow> if P v then Some (f v) else None)"
proof (induction vs)
  case Nil
  then show ?case by simp
next
  case (Cons e vs)
  obtain k0 v0 where e: "e = (k0, v0)" by (cases e)
  from Cons.prems e have d: "distinct (map fst vs)" and n: "k0 \<notin> fst ` set vs" by auto
  show ?case
  proof (cases "k = k0")
    case True
    have "map_of vs k0 = None" using n by (simp add: map_of_eq_None_iff)
    with Cons.IH [OF d] True e show ?thesis by (simp split: option.splits)
  next
    case False
    with Cons.IH [OF d] e show ?thesis by simp
  qed
qed

lemma objGet_jsonCloneObj:
  "distinct (map fst vs) \<Longrightarrow>
   objGet (jsonCloneObj vs) k =
     (case objGet vs k of None \<Rightarrow> None
      | Some v \<Rightarrow> if v \<noteq> JUndefined then Some (jsonClone v) else None)"
  unfolding objGet_def jsonCloneObj_def by (rule map_of_clone)

lemma preprocess_eq:
  assumes "MessageParser_parse E msg = Inr els"
  shows "preprocessMessageValues E msg (Some vs) =
     Inr (Some (foldl (\<lambda>c el. objSet c (elId el)
                  (JNum (numDiv (toNumber E (objGet c (elId el))) 1024)))
             (foldl (\<lambda>c el. objSet c (elId el)
                  (JNum (numMul (mathRound (numDiv (toNumber E (objGet c (elId el))) 10)) 10)))
                (jsonCloneObj vs) (filter (hasStyle ''milliseconds'') els))
             (filter (hasStyle ''bytes'') els)))"
proof -
  have r: "roundMilliseconds E = (\<lambda>c el. objSet c (elId el)
                  (JNum (numMul (mathRound (numDiv (toNumber E (objGet c (elId el))) 10)) 10)))"
    by (intro ext) (simp add: roundMilliseconds_def)
  have b: "bytesToKB E = (\<lambda>c el. objSet c (elId el)
                  (JNum (numDiv (toNumber E (objGet c (elId el))) 1024)))"
    by (intro ext) (simp add: bytesToKB_def)
  show ?thesis by (simp add: preprocessMessageValues_def assms Let_def r b)
qed

subsection \<open>The arithmetic of the machine\<close>

lemma isDouble_dyadic:
  assumes "\<bar>j\<bar> < 2 ^ 53" and "c \<le> 1074"
  shows "isDouble (of_int j / 2 ^ c)"
  unfolding isDouble_def binary53_def
  using assms by (intro exI [of _ j] exI [of _ 0] exI [of _ c]) simp

text \<open>A double of magnitude \<open>2 ^ i\<close> or more is a multiple of \<open>2 ^ (i - 52)\<close>.\<close>

lemma double_grid:
  assumes d: "isDouble x" and lo: "2 ^ i \<le> \<bar>x\<bar>" and i: "i \<le> 52"
  shows "\<exists>z::int. x * 2 ^ (52 - i) = of_int z"
proof -
  from d obtain m :: int and a b :: nat where m: "\<bar>m\<bar> < 2 ^ 53"
    and x: "x = of_int m * 2 ^ a / 2 ^ b"
    unfolding isDouble_def binary53_def by blast
  show ?thesis
  proof (cases "b \<le> a + (52 - i)")
    case True
    then obtain c where c: "a + (52 - i) = b + c" by (metis le_Suc_ex)
    have "x * 2 ^ (52 - i) = of_int m * 2 ^ (a + (52 - i)) / 2 ^ b"
      by (simp add: x power_add)
    also have "\<dots> = of_int m * 2 ^ c" by (simp add: c power_add)
    also have "\<dots> = of_int (m * 2 ^ c)" by simp
    finally show ?thesis by blast
  next
    case False
    then have "a + (53 - i) \<le> b" using i by simp
    then obtain c where b: "b = a + (53 - i) + c" by (metis le_Suc_ex)
    have "\<bar>x\<bar> = \<bar>of_int m\<bar> / (2 ^ (53 - i) * 2 ^ c)"
      by (simp add: x b power_add abs_mult abs_divide)
    also have "\<dots> < 2 ^ 53 / (2 ^ (53 - i) * 2 ^ c)"
    proof -
      from m have "\<bar>real_of_int m\<bar> < 2 ^ 53"
        by (metis of_int_abs of_int_less_numeral_power_cancel_iff)
      then show ?thesis by (simp add: divide_strict_right_mono)
    qed
    also have "\<dots> \<le> 2 ^ 53 / (2 ^ (53 - i) * 1)"
      by (intro divide_left_mono mult_left_mono) simp_all
    also have "\<dots> = (2::real) ^ i"
    proof -
      have "(2::real) ^ 53 = 2 ^ (53 - i) * 2 ^ i" using i by (simp flip: power_add)
      then show ?thesis by (simp add: field_simps)
    qed
    finally show ?thesis using lo by simp
  qed
qed


lemma ex_binade:
  assumes "1 \<le> (y::real)"
  shows "\<exists>i::nat. 2 ^ i \<le> y \<and> y < 2 ^ Suc i"
proof -
  from real_arch_pow [of 2 y] obtain n :: nat where n: "y < 2 ^ n" by auto
  define n0 where "n0 = (LEAST n. y < 2 ^ n)"
  from n have l: "y < 2 ^ n0" unfolding n0_def by (rule LeastI)
  with assms have "n0 \<noteq> 0" by (cases n0) auto
  then obtain i where i: "n0 = Suc i" by (cases n0) auto
  have "\<not> y < 2 ^ i"
  proof
    assume "y < 2 ^ i"
    then have "n0 \<le> i" unfolding n0_def by (rule Least_le)
    with i show False by simp
  qed
  then have "2 ^ i \<le> y" by simp
  with l i show ?thesis by (intro exI [of _ i]) simp
qed

lemma nearest_upper:
  assumes d: "isDouble x" and b: "\<bar>x\<bar> < 2 ^ 53"
    and k1: "of_int k \<le> x / 10 + 1 / 2" and k2: "x / 10 + 1 / 2 < of_int k + 1"
    and kb: "\<bar>k\<bar> < 2 ^ 50"
  shows "\<exists>d. isDouble d \<and> \<bar>x / 10 - d\<bar> < of_int k + 1 / 2 - x / 10"
proof -
  define \<delta> where "\<delta> = of_int k + 1 / 2 - x / 10"
  from k2 have dp: "0 < \<delta>" by (simp add: \<delta>_def)
  show ?thesis
  proof (cases "1 / 16 < \<delta>")
    case True
    from kb have "\<bar>8 * k + 3\<bar> < 2 ^ 53" by simp
    then have dd: "isDouble (of_int (8 * k + 3) / 2 ^ 3)" by (rule isDouble_dyadic) simp
    have "x / 10 - of_int (8 * k + 3) / 2 ^ 3 = 1 / 8 - \<delta>"
      by (simp add: \<delta>_def add_divide_distrib)
    with True have "\<bar>x / 10 - of_int (8 * k + 3) / 2 ^ 3\<bar> < \<delta>" by simp
    with dd show ?thesis unfolding \<delta>_def by blast
  next
    case False
    then have close: "\<delta> \<le> 1 / 16" by simp
    define N where "N = 10 * k + 5"
    have xN: "x = of_int N - 10 * \<delta>" by (simp add: N_def \<delta>_def)
    have N5: "5 \<le> \<bar>N\<bar>" unfolding N_def by presburger
    then have rN5: "5 \<le> \<bar>real_of_int N\<bar>" by (metis of_int_abs of_int_numeral of_int_le_iff)
    have xa: "\<bar>real_of_int N\<bar> - 5 / 8 \<le> \<bar>x\<bar>" using xN close dp by linarith
    have xb: "\<bar>real_of_int N\<bar> \<le> \<bar>x\<bar> + 5 / 8" using xN close dp by linarith
    from xa rN5 have x4: "4 \<le> \<bar>x\<bar>" by linarith
    then have "1 \<le> \<bar>x\<bar>" by simp
    from ex_binade [OF this] obtain i :: nat where lo: "2 ^ i \<le> \<bar>x\<bar>" and hi: "\<bar>x\<bar> < 2 ^ Suc i"
      by blast
    have i2: "2 \<le> i"
    proof (rule ccontr)
      assume "\<not> 2 \<le> i"
      then have "Suc i \<le> 2" by simp
      then have "(2::real) ^ Suc i \<le> 2 ^ 2" by (rule power_increasing) simp
      with hi x4 show False by simp
    qed
    have i52: "i \<le> 52"
    proof (rule ccontr)
      assume "\<not> i \<le> 52"
      then have "53 \<le> i" by simp
      then have "(2::real) ^ 53 \<le> 2 ^ i" by (rule power_increasing) simp
      with lo b show False by simp
    qed
    define U :: real where "U = 2 ^ (52 - i)"
    define X :: real where "X = 2 ^ i"
    have Up: "0 < U" by (simp add: U_def)
    have XU: "X * U = 2 ^ 52" unfolding X_def U_def using i52 by (simp flip: power_add)
    have X4: "4 \<le> X"
    proof -
      from i2 have "(2::real) ^ 2 \<le> 2 ^ i" by (rule power_increasing) simp
      then show ?thesis by (simp add: X_def)
    qed
    have U50: "U \<le> 2 ^ 50"
    proof -
      from X4 Up have "4 * U \<le> X * U" by (rule mult_right_mono [OF _ less_imp_le])
      with XU show ?thesis by simp
    qed
    have e55: "55 - i = 3 + (52 - i)" using i52 by simp
    have e54: "54 - i = 2 + (52 - i)" using i52 by simp
    have p55: "(2::real) ^ (55 - i) = 8 * U"
      unfolding e55 U_def by (simp add: power_add)
    have p54: "(2::int) ^ (54 - i) = 4 * 2 ^ (52 - i)"
      unfolding e54 by (simp add: power_add)
    have rp54: "real_of_int (2 ^ (54 - i)) = 4 * U" by (simp add: p54 U_def)
    from double_grid [OF d lo i52] obtain z :: int where z: "x * U = of_int z"
      unfolding U_def by blast
    define w where "w = N * 2 ^ (52 - i) - z"
    have w: "real_of_int w = 10 * \<delta> * U" by (simp add: w_def z [symmetric] xN U_def algebra_simps)
    from dp Up have "0 < 10 * \<delta> * U" by simp
    with w have "0 < real_of_int w" by simp
    then have "1 \<le> w" by simp
    then have "1 \<le> real_of_int w" by simp
    with w have g: "1 \<le> 10 * \<delta> * U" by simp
    define M where "M = (2 * k + 1) * 2 ^ (54 - i) - 1"
    define \<epsilon> :: real where "\<epsilon> = 1 / (8 * U)"
    have ep: "0 < \<epsilon>" using Up by (simp add: \<epsilon>_def)
    have eU: "8 * \<epsilon> * U = 1" using Up by (simp add: \<epsilon>_def)
    have e2: "\<epsilon> < 2 * \<delta>"
    proof -
      from g eU have "8 * \<epsilon> * U \<le> 10 * \<delta> * U" by simp
      then have "(8 * \<epsilon>) * U \<le> (10 * \<delta>) * U" by simp
      with Up have "8 * \<epsilon> \<le> 10 * \<delta>" by (simp only: mult_le_cancel_right_pos)
      with dp show ?thesis by linarith
    qed
    have rM: "real_of_int M / 2 ^ (55 - i) = of_int k + 1 / 2 - \<epsilon>"
    proof -
      have "real_of_int M = (2 * of_int k + 1) * (4 * U) - 1"
        unfolding M_def by (simp add: rp54 [symmetric] del: of_int_power)
      then have "real_of_int M / (8 * U) = ((2 * of_int k + 1) * (4 * U)) / (8 * U) - 1 / (8 * U)"
        by (simp add: diff_divide_distrib)
      also have "\<dots> = of_int k + 1 / 2 - \<epsilon>" using Up by (simp add: \<epsilon>_def field_simps)
      finally show ?thesis by (simp add: p55)
    qed
    have Mb: "\<bar>M\<bar> < 2 ^ 53"
    proof -
      have "real_of_int N = 5 * (2 * real_of_int k + 1)" by (simp add: N_def)
      moreover have "5 * \<bar>y\<bar> = \<bar>5 * y\<bar>" for y :: real by (simp add: abs_mult)
      ultimately have "5 * \<bar>2 * real_of_int k + 1\<bar> = \<bar>real_of_int N\<bar>" by (simp only:)
      with xb hi have "5 * \<bar>2 * real_of_int k + 1\<bar> < 2 * X + 5 / 8" by (simp add: X_def)
      then have "(5 * \<bar>2 * real_of_int k + 1\<bar>) * U < (2 * X + 5 / 8) * U"
        using Up by (rule mult_strict_right_mono)
      also have "\<dots> = 2 * (X * U) + 5 / 8 * U" by (simp add: algebra_simps)
      also have "\<dots> \<le> 2 * 2 ^ 52 + 5 / 8 * 2 ^ 50" using U50 by (simp add: XU)
      finally have "\<bar>2 * real_of_int k + 1\<bar> * (4 * U) < 2 ^ 53 - 1" by simp
      moreover have "\<bar>real_of_int M\<bar> \<le> \<bar>2 * real_of_int k + 1\<bar> * (4 * U) + 1"
      proof -
        have "real_of_int M = (2 * of_int k + 1) * (4 * U) - 1"
          unfolding M_def by (simp add: rp54 [symmetric] del: of_int_power)
        moreover have "\<bar>(2 * real_of_int k + 1) * (4 * U)\<bar> = \<bar>2 * real_of_int k + 1\<bar> * (4 * U)"
          using Up by (simp add: abs_mult)
        ultimately show ?thesis by linarith
      qed
      ultimately have "\<bar>real_of_int M\<bar> < 2 ^ 53" by linarith
      then show ?thesis by (metis of_int_abs of_int_less_numeral_power_cancel_iff)
    qed
    have "55 - i \<le> 1074" by simp
    with Mb have dd: "isDouble (of_int M / 2 ^ (55 - i))" by (rule isDouble_dyadic)
    have "x / 10 - real_of_int M / 2 ^ (55 - i) = \<epsilon> - \<delta>" by (simp add: rM \<delta>_def)
    with ep e2 dp have "\<bar>x / 10 - real_of_int M / 2 ^ (55 - i)\<bar> < \<delta>" by linarith
    with dd show ?thesis unfolding \<delta>_def by blast
  qed
qed


lemma round_bound:
  assumes b: "\<bar>x::real\<bar> < 2 ^ 53"
  shows "\<bar>\<lfloor>x / 10 + 1 / 2\<rfloor>\<bar> \<le> 900719925474099"
proof -
  let ?k = "\<lfloor>x / 10 + 1 / 2\<rfloor>"
  have k1: "of_int ?k \<le> x / 10 + 1 / 2" and k2: "x / 10 + 1 / 2 < of_int ?k + 1" by linarith+
  from b have "x < 9007199254740992" "- 9007199254740992 < x" by simp_all
  with k1 k2 have "real_of_int ?k < 900719925474100" "- 900719925474100 < real_of_int ?k"
    by linarith+
  then have "?k < 900719925474100" "- 900719925474100 < ?k"
    by linarith+
  then show ?thesis by linarith
qed

text \<open>For a double \<open>x\<close> below \<open>2 ^ 53\<close> in magnitude, \<^verbatim>\<open>Math.round\<close> of any double nearest
  to \<open>x / 10\<close> is \<^verbatim>\<open>Math.round\<close> of \<open>x / 10\<close> itself.\<close>

lemma round_ms_double:
  assumes d: "isDouble x" and b: "\<bar>x\<bar> < 2 ^ 53" and n: "nearestDouble (x / 10) q"
  shows "\<lfloor>q + 1 / 2\<rfloor> = \<lfloor>x / 10 + 1 / 2\<rfloor>"
proof -
  define k where "k = \<lfloor>x / 10 + 1 / 2\<rfloor>"
  have k1: "of_int k \<le> x / 10 + 1 / 2" and k2: "x / 10 + 1 / 2 < of_int k + 1"
    unfolding k_def by linarith+
  from round_bound [OF b] have k9: "\<bar>k\<bar> \<le> 900719925474099" by (simp add: k_def)
  then have kb: "\<bar>k\<bar> < 2 ^ 50" by simp
  from n have near: "\<And>e. isDouble e \<Longrightarrow> \<bar>x / 10 - q\<bar> \<le> \<bar>x / 10 - e\<bar>"
    by (simp add: nearestDouble_def)
  have lower: "of_int k - 1 / 2 \<le> q"
  proof (rule ccontr)
    assume "\<not> of_int k - 1 / 2 \<le> q"
    then have q: "q < of_int k - 1 / 2" by simp
    from k9 have "\<bar>2 * k - 1\<bar> < 2 ^ 53" by simp
    then have "isDouble (of_int (2 * k - 1) / 2 ^ 1)" by (rule isDouble_dyadic) simp
    from near [OF this] have "\<bar>x / 10 - q\<bar> \<le> \<bar>x / 10 - (of_int k - 1 / 2)\<bar>"
      by (simp add: diff_divide_distrib)
    with q k1 show False by linarith
  qed
  have upper: "q < of_int k + 1 / 2"
  proof (rule ccontr)
    assume "\<not> q < of_int k + 1 / 2"
    then have q: "of_int k + 1 / 2 \<le> q" by simp
    from nearest_upper [OF d b k1 k2 kb] obtain e where e: "isDouble e"
      and c: "\<bar>x / 10 - e\<bar> < of_int k + 1 / 2 - x / 10" by blast
    from near [OF e] c q show False by linarith
  qed
  have "\<lfloor>q + 1 / 2\<rfloor> = k"
    by (rule floor_unique) (use lower upper in linarith)+
  then show ?thesis by (simp add: k_def)
qed

lemma roundToTen_double:
  assumes "\<bar>x\<bar> < 2 ^ 53"
  shows "isDouble (roundToTen x)"
proof -
  from round_bound [OF assms] have "\<bar>\<lfloor>x / 10 + 1 / 2\<rfloor> * 10\<bar> < 2 ^ 53" by simp
  then have "isDouble (of_int (\<lfloor>x / 10 + 1 / 2\<rfloor> * 10) / 2 ^ 0)" by (rule isDouble_dyadic) simp
  then show ?thesis by (simp add: roundToTen_def)
qed

lemma nearest_of_double: "isDouble d \<Longrightarrow> nearestDouble d q \<Longrightarrow> q = d"
  unfolding nearestDouble_def by fastforce

lemma nearest_self: "isDouble d \<Longrightarrow> nearestDouble d d"
  unfolding nearestDouble_def by simp

text \<open>A double of magnitude \<open>2 ^ -1012\<close> or more is a multiple of \<open>2 ^ -1064\<close>, and
  the quotient of such a double by 1024 is a double.\<close>

lemma binary53_above:
  assumes d: "binary53 (L + c0) x" and lo: "2 ^ 53 \<le> \<bar>x\<bar> * 2 ^ Suc L"
  shows "binary53 L x"
proof -
  from d obtain m :: int and a b :: nat where m: "\<bar>m\<bar> < 2 ^ 53" and a: "a \<le> 971"
    and b: "b \<le> L + c0" and x: "x = of_int m * 2 ^ a / 2 ^ b"
    unfolding binary53_def by blast
  from m have rm: "\<bar>real_of_int m\<bar> < 2 ^ 53"
    by (metis of_int_abs of_int_less_numeral_power_cancel_iff)
  show ?thesis
  proof (cases "b \<le> L")
    case True
    with m a x show ?thesis unfolding binary53_def by blast
  next
    case False
    then have "L < b" by simp
    then obtain c1 where "b = Suc (L + c1)" by (auto dest: less_imp_Suc_add)
    then have c: "b = L + Suc c1" by simp
    show ?thesis
    proof (cases "Suc c1 \<le> a")
      case True
      then obtain a' where a': "a = Suc c1 + a'" by (auto simp: le_iff_add)
      have "x = of_int m * 2 ^ a' / 2 ^ L" by (simp add: x c a' power_add)
      moreover from a a' have "a' \<le> 971" by simp
      ultimately show ?thesis unfolding binary53_def using m by blast
    next
      case False
      then have "a < Suc c1" by simp
      then obtain e where "Suc c1 = Suc (a + e)" by (auto dest: less_imp_Suc_add)
      then have e: "c1 = a + e" by simp
      have "\<bar>x\<bar> * 2 ^ Suc L = \<bar>real_of_int m\<bar> / 2 ^ e"
        by (simp add: x c e power_add abs_mult abs_divide)
      also have "\<dots> \<le> \<bar>real_of_int m\<bar> / 1"
        by (intro divide_left_mono) simp_all
      also have "\<dots> < 2 ^ 53" using rm by simp
      finally show ?thesis using lo by simp
    qed
  qed
qed

lemma double_above:
  assumes d: "isDouble x" and lo: "1 / 2 ^ 1012 \<le> \<bar>x\<bar>"
  shows "binary53 1064 x"
proof -
  from d have b: "binary53 (1064 + 10) x" by (simp add: isDouble_def)
  from lo have "1 / 2 ^ 1012 * 2 ^ Suc 1064 \<le> \<bar>x\<bar> * 2 ^ Suc 1064"
    by (rule mult_right_mono) simp
  moreover have "1 / 2 ^ 1012 * 2 ^ Suc 1064 = (2::real) ^ 53"
  proof -
    have "Suc 1064 = 53 + 1012" by simp
    then have "(2::real) ^ Suc 1064 = 2 ^ 53 * 2 ^ 1012" by (simp only: power_add)
    then show ?thesis by (simp only: times_divide_eq_left mult_1 nonzero_mult_div_cancel_right
          power_not_zero zero_neq_numeral not_False_eq_True)
  qed
  ultimately have "2 ^ 53 \<le> \<bar>x\<bar> * 2 ^ Suc 1064" by (simp only:)
  with b show ?thesis by (rule binary53_above)
qed

lemma bytes_double: "binary53 1064 x \<Longrightarrow> isDouble (x / 1024)"
proof -
  assume "binary53 1064 x"
  then obtain m :: int and a b :: nat where m: "\<bar>m\<bar> < 2 ^ 53" "a \<le> 971" "b \<le> 1064"
    and x: "x = of_int m * 2 ^ a / 2 ^ b" unfolding binary53_def by blast
  have "x / 1024 = of_int m * 2 ^ a / 2 ^ (b + 10)" by (simp add: x power_add)
  moreover from m have "b + 10 \<le> 1074" by simp
  ultimately show ?thesis unfolding isDouble_def binary53_def using m(1,2) by blast
qed

lemma round_idem:
  "numMul (mathRound (numDiv (numMul (mathRound (numDiv n 10)) 10) 10)) 10
     = numMul (mathRound (numDiv n 10)) 10"
  by (cases n) (simp_all add: numMul_def mathRound_def numDiv_def)

text \<open>A callback that leaves what it has written as it is, run for a list of ids that
  are keys of the object: each of them holds what the callback makes of its first
  value, however often it stands in the list.\<close>

lemma foldl_objSet_idem:
  assumes "elId ` set els \<subseteq> fst ` set c" and "\<And>v. g (Some (g v)) = g v"
  shows "map fst (foldl (\<lambda>c el. objSet c (elId el) (g (objGet c (elId el)))) c els) = map fst c
       \<and> (\<forall>k. objGet (foldl (\<lambda>c el. objSet c (elId el) (g (objGet c (elId el)))) c els) k =
               (if k \<in> elId ` set els then Some (g (objGet c k)) else objGet c k))"
  using assms(1)
proof (induction els arbitrary: c)
  case Nil
  then show ?case by simp
next
  case (Cons el els)
  let ?c1 = "objSet c (elId el) (g (objGet c (elId el)))"
  from Cons.prems have m: "elId el \<in> fst ` set c" by simp
  have k1: "map fst ?c1 = map fst c" by (rule map_fst_objSet [OF m])
  then have "fst ` set ?c1 = fst ` set c" by (metis set_map)
  with Cons.prems have p: "elId ` set els \<subseteq> fst ` set ?c1" by auto
  from Cons.IH [OF p] have
    a: "map fst (foldl (\<lambda>c el. objSet c (elId el) (g (objGet c (elId el)))) ?c1 els) = map fst ?c1"
    and b: "\<And>k. objGet (foldl (\<lambda>c el. objSet c (elId el) (g (objGet c (elId el)))) ?c1 els) k =
               (if k \<in> elId ` set els then Some (g (objGet ?c1 k)) else objGet ?c1 k)"
    by auto
  show ?case
  proof (intro conjI allI)
    show "map fst (foldl (\<lambda>c el. objSet c (elId el) (g (objGet c (elId el)))) c (el # els)) = map fst c"
      using a k1 by simp
  next
    fix k
    show "objGet (foldl (\<lambda>c el. objSet c (elId el) (g (objGet c (elId el)))) c (el # els)) k =
               (if k \<in> elId ` set (el # els) then Some (g (objGet c k)) else objGet c k)"
      using b [of k] assms(2) by (auto simp: objGet_objSet)
  qed
qed

lemma machineRoundToTen_eq:
  assumes "isDouble x" and "\<bar>x\<bar> < 2 ^ 53" and "machineRoundToTen x r"
  shows "r = roundToTen x"
proof -
  from assms(3) obtain q where q: "nearestDouble (x / 10) q"
    and r: "nearestDouble (of_int \<lfloor>q + 1 / 2\<rfloor> * 10) r"
    unfolding machineRoundToTen_def by blast
  from round_ms_double [OF assms(1,2) q] r
  have "nearestDouble (roundToTen x) r" by (simp add: roundToTen_def)
  with roundToTen_double [OF assms(2)] show ?thesis by (rule nearest_of_double)
qed

text \<open>
  C3, amended. Let the template parse and the keys of the values be distinct. Let the
  values hold, under the id of every top-level placeholder styled \<^verbatim>\<open>milliseconds\<close>,
  a Number of magnitude below \<open>2 ^ 53\<close>, and under the id of every top-level
  placeholder styled \<^verbatim>\<open>bytes\<close> a Number that is a multiple of \<open>2 ^ -1064\<close> (as
  every Number of magnitude \<open>2 ^ -1012\<close> or more is); let no id stand in two
  \<^verbatim>\<open>bytes\<close> placeholders, nor in a \<^verbatim>\<open>bytes\<close> and a \<^verbatim>\<open>milliseconds\<close> placeholder.
  Then the preprocessor returns a mapping with the keys of the \<^verbatim>\<open>JSON\<close> copy of the
  values, in their order; an entry \<open>x\<close> of a \<^verbatim>\<open>milliseconds\<close> placeholder is
  \<open>roundToTen x\<close>, a multiple of ten at most 5 away from \<open>x\<close>, and that is what the
  machine gives for \<^verbatim>\<open>Math.round(x / 10) * 10\<close>; an entry \<open>x\<close> of a \<^verbatim>\<open>bytes\<close>
  placeholder is \<open>x / 1024\<close>, and that is what the machine gives for the quotient;
  every other entry is that of the \<^verbatim>\<open>JSON\<close> copy, which is the values themselves
  when they hold no \<^verbatim>\<open>undefined\<close> and no number that is not finite. Without values
  the preprocessor returns no mapping, whatever the template.
\<close>

theorem preprocess_values:
  assumes "MessageParser_parse E msg = Inr els"
    and "distinct (map fst vs)"
    and "distinct (styledIds ''bytes'' els)"
    and "set (styledIds ''milliseconds'' els) \<inter> set (styledIds ''bytes'' els) = {}"
    and "\<forall>k \<in> set (styledIds ''milliseconds'' els).
           \<exists>x. objGet vs k = Some (JNum (Fin x)) \<and> isDouble x \<and> \<bar>x\<bar> < 2 ^ 53"
    and "\<forall>k \<in> set (styledIds ''bytes'' els).
           \<exists>x. objGet vs k = Some (JNum (Fin x)) \<and> binary53 1064 x"
  shows "preprocessMessageValues E msg None = Inr None
       \<and> (\<exists>out. preprocessMessageValues E msg (Some vs) = Inr (Some out)
            \<and> map fst out = map fst (jsonCloneObj vs)
            \<and> (\<forall>k x. k \<in> set (styledIds ''milliseconds'' els) \<and> objGet vs k = Some (JNum (Fin x))
                  \<longrightarrow> objGet out k = Some (JNum (Fin (roundToTen x)))
                      \<and> (\<forall>r. machineRoundToTen x r \<longrightarrow> r = roundToTen x))
            \<and> (\<forall>k x. k \<in> set (styledIds ''bytes'' els) \<and> objGet vs k = Some (JNum (Fin x))
                  \<longrightarrow> objGet out k = Some (JNum (Fin (x / 1024)))
                      \<and> (\<forall>r. nearestDouble (x / 1024) r \<longrightarrow> r = x / 1024))
            \<and> (\<forall>k. k \<notin> set (styledIds ''milliseconds'' els @ styledIds ''bytes'' els)
                  \<longrightarrow> objGet out k = objGet (jsonCloneObj vs) k))
       \<and> (list_all (\<lambda>(k, v). isJson v) vs \<longrightarrow> jsonCloneObj vs = vs)
       \<and> (\<forall>x. (\<exists>n::int. roundToTen x = 10 * of_int n) \<and> \<bar>roundToTen x - x\<bar> \<le> 5)"
proof -
  let ?ms = "filter (hasStyle ''milliseconds'') els"
  let ?bs = "filter (hasStyle ''bytes'') els"
  let ?g1 = "\<lambda>v. JNum (numMul (mathRound (numDiv (toNumber E v) 10)) 10)"
  let ?g2 = "\<lambda>v. JNum (numDiv (toNumber E v) 1024)"
  let ?c0 = "jsonCloneObj vs"
  let ?c1 = "foldl (\<lambda>c el. objSet c (elId el) (?g1 (objGet c (elId el)))) ?c0 ?ms"
  let ?c2 = "foldl (\<lambda>c el. objSet c (elId el) (?g2 (objGet c (elId el)))) ?c1 ?bs"
  have fin: "objGet ?c0 k = Some (JNum (Fin x))" if "objGet vs k = Some (JNum (Fin x))" for k x
    using that by (simp add: objGet_jsonCloneObj [OF assms(2)])
  have in0: "k \<in> fst ` set ?c0"
    if "k \<in> set (styledIds ''milliseconds'' els @ styledIds ''bytes'' els)" for k
  proof -
    from assms(5,6) that obtain x where "objGet vs k = Some (JNum (Fin x))" by auto
    from fin [OF this] show ?thesis
      unfolding objGet_def by (metis domI dom_map_of_conv_image_fst)
  qed
  have db: "distinct (map elId ?bs)"
    and disj: "set (map elId ?ms) \<inter> set (map elId ?bs) = {}"
    using assms(3,4) by (simp_all add: styledIds_def)
  have sm: "elId ` set ?ms \<subseteq> fst ` set ?c0"
    using in0 by (auto simp: styledIds_def)
  have idem: "?g1 (Some (?g1 v)) = ?g1 v" for v
    by (simp add: toNumber_def round_idem)
  note A = foldl_objSet_idem [of ?ms ?c0 ?g1, OF sm idem]
  from A have k1: "map fst ?c1 = map fst ?c0" by blast
  from A have g1: "objGet ?c1 k = (if k \<in> elId ` set ?ms then Some (?g1 (objGet ?c0 k)) else objGet ?c0 k)"
    for k by blast
  have "fst ` set ?c1 = fst ` set ?c0" using k1 by (metis set_map)
  then have sb: "elId ` set ?bs \<subseteq> fst ` set ?c1"
    using in0 by (auto simp: styledIds_def)
  note B = foldl_objSet_update [OF db sb, of ?g2]
  from B have k2: "map fst ?c2 = map fst ?c1" by blast
  from B have g2: "objGet ?c2 k = (if k \<in> elId ` set ?bs then Some (?g2 (objGet ?c1 k)) else objGet ?c1 k)"
    for k by blast
  have out: "preprocessMessageValues E msg (Some vs) = Inr (Some ?c2)"
    by (rule preprocess_eq [OF assms(1)])
  have keys: "map fst ?c2 = map fst (jsonCloneObj vs)" using k1 k2 by simp
  have ms: "objGet ?c2 k = Some (JNum (Fin (roundToTen x)))
            \<and> (\<forall>r. machineRoundToTen x r \<longrightarrow> r = roundToTen x)"
    if "k \<in> set (styledIds ''milliseconds'' els)" "objGet vs k = Some (JNum (Fin x))" for k x
  proof -
    from that(1) disj have "k \<notin> elId ` set ?bs" "k \<in> elId ` set ?ms"
      by (auto simp: styledIds_def)
    with g1 [of k] g2 [of k] fin [OF that(2)]
    have a: "objGet ?c2 k = Some (JNum (Fin (roundToTen x)))"
      by (simp add: toNumber_def numDiv_def mathRound_def numMul_def roundToTen_def)
    from assms(5) that have "isDouble x" "\<bar>x\<bar> < 2 ^ 53" by auto
    then have "\<forall>r. machineRoundToTen x r \<longrightarrow> r = roundToTen x"
      using machineRoundToTen_eq by blast
    with a show ?thesis by simp
  qed
  have bs: "objGet ?c2 k = Some (JNum (Fin (x / 1024)))
            \<and> (\<forall>r. nearestDouble (x / 1024) r \<longrightarrow> r = x / 1024)"
    if "k \<in> set (styledIds ''bytes'' els)" "objGet vs k = Some (JNum (Fin x))" for k x
  proof -
    from that(1) disj have "k \<in> elId ` set ?bs" "k \<notin> elId ` set ?ms"
      by (auto simp: styledIds_def)
    with g1 [of k] g2 [of k] fin [OF that(2)]
    have a: "objGet ?c2 k = Some (JNum (Fin (x / 1024)))"
      by (simp add: toNumber_def numDiv_def)
    from assms(6) that have "binary53 1064 x" by auto
    then have "isDouble (x / 1024)" by (rule bytes_double)
    then have "\<forall>r. nearestDouble (x / 1024) r \<longrightarrow> r = x / 1024"
      using nearest_of_double by blast
    with a show ?thesis by simp
  qed
  have other: "objGet ?c2 k = objGet (jsonCloneObj vs) k"
    if "k \<notin> set (styledIds ''milliseconds'' els @ styledIds ''bytes'' els)" for k
    using that g1 [of k] g2 [of k] by (simp add: styledIds_def)
  from out keys ms bs other have
    main: "\<exists>out. preprocessMessageValues E msg (Some vs) = Inr (Some out)
            \<and> map fst out = map fst (jsonCloneObj vs)
            \<and> (\<forall>k x. k \<in> set (styledIds ''milliseconds'' els) \<and> objGet vs k = Some (JNum (Fin x))
                  \<longrightarrow> objGet out k = Some (JNum (Fin (roundToTen x)))
                      \<and> (\<forall>r. machineRoundToTen x r \<longrightarrow> r = roundToTen x))
            \<and> (\<forall>k x. k \<in> set (styledIds ''bytes'' els) \<and> objGet vs k = Some (JNum (Fin x))
                  \<longrightarrow> objGet out k = Some (JNum (Fin (x / 1024)))
                      \<and> (\<forall>r. nearestDouble (x / 1024) r \<longrightarrow> r = x / 1024))
            \<and> (\<forall>k. k \<notin> set (styledIds ''milliseconds'' els @ styledIds ''bytes'' els)
                  \<longrightarrow> objGet out k = objGet (jsonCloneObj vs) k)"
    by blast
  show ?thesis
    using main preprocessMessageValues_absent [of E msg] jsonCloneObj_isJson [of vs]
      roundToTen_multiple roundToTen_nearest
    by blast
qed


lemma jsonClone_undefined: "(jsonClone v = JUndefined) = (v = JUndefined)"
  by (cases v) (auto split: jsnum.splits)

lemma jsonClone_idem: "jsonClone (jsonClone v) = jsonClone v"
proof (induction v rule: jsonClone.induct)
  case (1 n)
  then show ?case by (cases n) simp_all
next
  case (2 xs)
  define f where "f = (\<lambda>v. if v = JUndefined then JNull else jsonClone v)"
  have h: "f (f v) = f v" if "v \<in> set xs" for v
  proof (cases "v = JUndefined")
    case True
    then show ?thesis by (simp add: f_def)
  next
    case False
    with 2 [OF that] show ?thesis by (simp add: f_def jsonClone_undefined)
  qed
  have "map (\<lambda>v. f (f v)) xs = map f xs"
    by (rule map_cong [OF refl]) (rule h)
  then have m: "map f (map f xs) = map f xs" by (simp add: comp_def)
  have a: "jsonClone (JArr ys) = JArr (map f ys)" for ys by (simp add: f_def)
  show ?case unfolding a m by (rule refl)
next
  case (3 ob)
  define g where "g = (\<lambda>(k :: string, v). (k, jsonClone v))"
  define P where "P = (\<lambda>(k :: string, v). v \<noteq> JUndefined)"
  have a: "jsonClone (JObj ys) = JObj (map g (filter P ys))" for ys
    by (simp add: g_def P_def)
  have h: "g (g e) = g e" if "e \<in> set (filter P ob)" for e
  proof -
    obtain k v where kv: "e = (k, v)" by (cases e)
    from that kv have "(k, v) \<in> set (filter (\<lambda>(k, v). v \<noteq> JUndefined) ob)"
      by (simp add: P_def)
    from 3 [OF this refl] kv show ?thesis by (simp add: g_def)
  qed
  have p: "P (g e)" if "e \<in> set (filter P ob)" for e
  proof -
    obtain k v where kv: "e = (k, v)" by (cases e)
    from that show ?thesis unfolding kv by (simp add: P_def g_def jsonClone_undefined)
  qed
  have f: "filter P (map g (filter P ob)) = map g (filter P ob)"
    using p by (simp add: filter_id_conv)
  have "map (\<lambda>e. g (g e)) (filter P ob) = map g (filter P ob)"
    by (rule map_cong [OF refl]) (rule h)
  then have m: "map g (map g (filter P ob)) = map g (filter P ob)" by (simp add: comp_def)
  show ?case unfolding a f m by (rule refl)
qed simp_all

lemma jsonCloneObj_idem: "jsonCloneObj (jsonCloneObj vs) = jsonCloneObj vs"
  using jsonClone_idem [of "JObj vs"] by (simp add: jsonCloneObj_def)

text \<open>In the embedding over trees a pass leaves the state as it found it, whatever
  its outcome; passes at a list of locales over copies of a report each return what
  they return alone.\<close>

lemma passes_leave_registry:
  "snd (replaceLocaleStringReferences E lhr L st) = st
   \<and> resolvePasses E lhr Ls st =
       (map (\<lambda>L. fst (replaceLocaleStringReferences E lhr L st)) Ls, st)
   \<and> recordedUsages (snd (resolvePasses E lhr Ls st)) k = recordedUsages st k"
  by (simp add: replaceLocaleStringReferences_state resolvePasses_eq)

subsection \<open>Stored values on the store\<close>

lemma writesWithin_refl: "writesWithin W h h"
  by (simp add: writesWithin_def)

lemma writesWithin_trans:
  assumes a: "writesWithin W h h1" and b: "writesWithin W h1 h2"
  shows "writesWithin W h h2"
  unfolding writesWithin_def
proof (intro conjI allI impI)
  from a b show "length h \<le> length h2" by (simp add: writesWithin_def)
next
  fix c assume c: "c < length h" "c \<notin> W"
  with a have c1: "c < length h1" and e: "h1 ! c = h ! c" by (simp_all add: writesWithin_def)
  from b c1 c(2) have "h2 ! c = h1 ! c" by (simp add: writesWithin_def)
  with e show "h2 ! c = h ! c" by simp
next
  fix c assume c: "c < length h"
  with a have c1: "c < length h1" and e: "refsOf (h1 ! c) \<subseteq> refsOf (h ! c)"
    by (simp_all add: writesWithin_def)
  from b c1 have "refsOf (h2 ! c) \<subseteq> refsOf (h1 ! c)" by (simp add: writesWithin_def)
  with e show "refsOf (h2 ! c) \<subseteq> refsOf (h ! c)" by blast
qed

lemma writesWithin_append: "writesWithin W h (h @ ys)"
  by (simp add: writesWithin_def nth_append)

lemma writesWithin_closed:
  assumes cl: "closedIn h W" and w: "writesWithin W h h'"
  shows "closedIn h' W"
  unfolding closedIn_def
proof (intro ballI conjI)
  fix b assume b: "b \<in> W"
  from cl b have lt: "b < length h" and sub: "refsOf (h ! b) \<subseteq> W" by (simp_all add: closedIn_def)
  from w lt show "b < length h'" by (simp add: writesWithin_def)
  from w lt have "refsOf (h' ! b) \<subseteq> refsOf (h ! b)" by (simp add: writesWithin_def)
  with sub show "refsOf (h' ! b) \<subseteq> W" by blast
qed

lemma snd_set_objSet: "snd ` set (objSet ob k v) \<subseteq> insert v (snd ` set ob)"
proof (cases "k \<in> fst ` set ob")
  case False
  then show ?thesis by (simp add: objSet_def set_objInsert)
next
  case True
  have "snd e \<in> insert v (snd ` set ob)"
    if "e \<in> set (map (\<lambda>(k', v'). if k' = k then (k', v) else (k', v')) ob)" for e
  proof -
    from that obtain k' v' where m: "(k', v') \<in> set ob"
      and e: "e = (if k' = k then (k', v) else (k', v'))" by auto
    show ?thesis
    proof (cases "k' = k")
      case True
      with e show ?thesis by simp
    next
      case False
      with e m show ?thesis by (auto simp add: image_iff intro: bexI [of _ "(k', v')"])
    qed
  qed
  with True show ?thesis by (auto simp add: objSet_def simp del: set_map)
qed

lemma snd_set_entries_arr: "snd ` set (entriesH (HArr xs)) = set xs"
proof -
  have "map snd (zip (map showNat [0..<length xs]) xs) = xs"
    by (rule map_snd_zip) simp
  then have "set (map snd (zip (map showNat [0..<length xs]) xs)) = set xs" by simp
  then show ?thesis by (simp add: entriesH_def del: map_snd_zip)
qed

lemma refsOf_setPropH: "refsOf (setPropH ob k (HStr m)) \<subseteq> refsOf ob"
proof (cases ob)
  case (HObj ps)
  have "snd ` set (objSet ps k (HStr m)) \<subseteq> insert (HStr m) (snd ` set ps)"
    by (rule snd_set_objSet)
  then show ?thesis unfolding HObj refsOf_def setPropH_def entriesH_def by auto
next
  case (HArr xs)
  show ?thesis
  proof (cases "showNat (parseNat k) = k \<and> parseNat k < length xs")
    case False
    then show ?thesis unfolding HArr setPropH_def by auto
  next
    case True
    have "set (xs[parseNat k := HStr m]) \<subseteq> insert (HStr m) (set xs)"
      by (rule set_update_subset_insert)
    with True show ?thesis
      unfolding HArr refsOf_def setPropH_def by (auto simp add: snd_set_entries_arr)
  qed
qed

text \<open>The write of a message: to the object at hand, and it adds no reference.\<close>

lemma writesWithin_write:
  assumes "a \<in> W"
  shows "writesWithin W h (h[a := setPropH (h ! a) k (HStr m)])"
  unfolding writesWithin_def
proof (intro conjI allI impI)
  show "length h \<le> length (h[a := setPropH (h ! a) k (HStr m)])" by simp
next
  fix b assume "b < length h" "b \<notin> W"
  with assms have "b \<noteq> a" by auto
  then show "h[a := setPropH (h ! a) k (HStr m)] ! b = h ! b" by simp
next
  fix b assume b: "b < length h"
  show "refsOf (h[a := setPropH (h ! a) k (HStr m)] ! b) \<subseteq> refsOf (h ! b)"
  proof (cases "b = a")
    case True
    with b show ?thesis by (simp add: refsOf_setPropH)
  next
    case False
    then show ?thesis by simp
  qed
qed

lemma entries_refs: "e \<in> set (entriesH ob) \<Longrightarrow> snd e = HRef c \<Longrightarrow> c \<in> refsOf ob"
  unfolding refsOf_def by (metis image_eqI mem_Collect_eq)

text \<open>Laying out a tree adds objects at the end of the store.\<close>

lemma alloc_prefix:
  "\<exists>ys. snd (allocTree t h) = h @ ys"
  "\<exists>ys. snd (allocProps ps h) = h @ ys"
  "\<exists>ys. snd (allocElems ts h) = h @ ys"
proof (induction t h and ps h and ts h rule: allocTree_allocProps_allocElems.induct)
  case (2 ps h)
  then obtain ys where "snd (allocProps ps h) = h @ ys" by blast
  then show ?case by (cases "allocProps ps h") simp
next
  case (3 ts h)
  then obtain ys where "snd (allocElems ts h) = h @ ys" by blast
  then show ?case by (cases "allocElems ts h") simp
next
  case (5 k t ps h)
  obtain v h1 where a: "allocTree t h = (v, h1)" by (cases "allocTree t h")
  obtain qs h2 where b: "allocProps ps h1 = (qs, h2)" by (cases "allocProps ps h1")
  from "5.IH"(1) a obtain ys where y: "h1 = h @ ys" by auto
  from "5.IH"(2) [OF a [symmetric]] b obtain zs where z: "h2 = h1 @ zs" by auto
  from a b y z show ?case by simp
next
  case (7 t ts h)
  obtain v h1 where a: "allocTree t h = (v, h1)" by (cases "allocTree t h")
  obtain vs h2 where b: "allocElems ts h1 = (vs, h2)" by (cases "allocElems ts h1")
  from "7.IH"(1) a obtain ys where y: "h1 = h @ ys" by auto
  from "7.IH"(2) [OF a [symmetric]] b obtain zs where z: "h2 = h1 @ zs" by auto
  from a b y z show ?case by simp
qed simp_all

lemma readVal_ref:
  "readVal n h (HRef a) = Some t \<Longrightarrow> (\<exists>ob. t = JObj ob) \<or> (\<exists>xs. t = JArr xs)"
  by (cases n; cases "h ! a") (auto split: if_splits)

lemma alloc_container:
  assumes "(\<exists>ob. t = JObj ob) \<or> (\<exists>xs. t = JArr xs)"
    and "allocTree (treeOf (jsonClone t)) h = (l, h1)"
  shows "\<exists>hp ob. l = HRef (length hp) \<and> h1 = hp @ [ob] \<and> (\<exists>ys. hp = h @ ys)"
proof -
  from assms(1) consider ps where "treeOf (jsonClone t) = TObj ps"
    | ts where "treeOf (jsonClone t) = TArr ts" by auto
  then show ?thesis
  proof cases
    case 1
    obtain qs hp where a: "allocProps ps h = (qs, hp)" by (cases "allocProps ps h")
    from alloc_prefix(2) [of ps h] a obtain ys where "hp = h @ ys" by auto
    with assms(2) 1 a show ?thesis by auto
  next
    case 2
    obtain vs hp where a: "allocElems ts h = (vs, hp)" by (cases "allocElems ts h")
    from alloc_prefix(3) [of ts h] a obtain ys where "hp = h @ ys" by auto
    with assms(2) 2 a show ?thesis by auto
  qed
qed

text \<open>The callbacks write to the object they are given, and \<^verbatim>\<open>forEach\<close> with them
  to no other.\<close>

lemma forEachH_writes:
  assumes f: "\<And>h el h'. f h el = Some h' \<Longrightarrow> \<exists>ob. h' = h[length hp := ob]"
  shows "\<exists>ob. snd (forEachH f els (hp @ [o0])) = hp @ [ob]"
proof (induction els arbitrary: o0)
  case Nil
  then show ?case by simp
next
  case (Cons el els)
  show ?case
  proof (cases "f (hp @ [o0]) el")
    case None
    then show ?thesis by simp
  next
    case (Some h')
    from f [OF Some] obtain ob where "h' = (hp @ [o0])[length hp := ob]" by blast
    then have h': "h' = hp @ [ob]" by simp
    from Cons.IH [of ob] Some h' show ?thesis by simp
  qed
qed

lemma roundMillisecondsH_writes: "roundMillisecondsH E n c h el = Some h' \<Longrightarrow> \<exists>ob. h' = h[c := ob]"
  by (auto simp: roundMillisecondsH_def split: option.splits)

lemma bytesToKBH_writes: "bytesToKBH E n c h el = Some h' \<Longrightarrow> \<exists>ob. h' = h[c := ob]"
  by (auto simp: bytesToKBH_def split: option.splits)

text \<open>The preprocessor on the store changes no object that was there; what it writes
  to is the copy it has laid out.\<close>

lemma preprocess_extends:
  "\<exists>ys. snd (preprocessMessageValuesH E msg vals n h) = h @ ys"
proof (cases vals)
  case None
  then show ?thesis by (simp add: preprocessMessageValuesH_def)
next
  case (Some a)
  show ?thesis
  proof (cases "readVal n h (HRef a)")
    case None
    with Some show ?thesis by (simp add: preprocessMessageValuesH_def)
  next
    case t: (Some t)
    obtain l h1 where al: "allocTree (treeOf (jsonClone t)) h = (l, h1)"
      by (cases "allocTree (treeOf (jsonClone t)) h")
    from alloc_container [OF readVal_ref [OF t] al] obtain hp ob ys where
      l: "l = HRef (length hp)" and h1: "h1 = hp @ [ob]" and hp: "hp = h @ ys" by blast
    show ?thesis
    proof (cases "MessageParser_parse E msg")
      case (Inl e)
      with Some t al l h1 hp show ?thesis by (simp add: preprocessMessageValuesH_def)
    next
      case (Inr els)
      let ?ms = "filter (hasStyle ''milliseconds'') els"
      let ?bs = "filter (hasStyle ''bytes'') els"
      obtain r2 h2 where f1: "forEachH (roundMillisecondsH E n (length hp)) ?ms (hp @ [ob]) = (r2, h2)"
        by (cases "forEachH (roundMillisecondsH E n (length hp)) ?ms (hp @ [ob])")
      have "\<exists>ob2. snd (forEachH (roundMillisecondsH E n (length hp)) ?ms (hp @ [ob])) = hp @ [ob2]"
        by (rule forEachH_writes) (rule roundMillisecondsH_writes)
      with f1 obtain ob2 where h2: "h2 = hp @ [ob2]" by auto
      obtain r3 h3 where f2: "forEachH (bytesToKBH E n (length hp)) ?bs (hp @ [ob2]) = (r3, h3)"
        by (cases "forEachH (bytesToKBH E n (length hp)) ?bs (hp @ [ob2])")
      have "\<exists>ob3. snd (forEachH (bytesToKBH E n (length hp)) ?bs (hp @ [ob2])) = hp @ [ob3]"
        by (rule forEachH_writes) (rule bytesToKBH_writes)
      with f2 obtain ob3 where h3: "h3 = hp @ [ob3]" by auto
      from Some t al l h1 hp Inr f1 h2 f2 h3 show ?thesis
        by (cases r2; cases r3) (simp_all add: preprocessMessageValuesH_def)
    qed
  qed
qed

lemma formatTemplateH_extends:
  "\<exists>ys. snd (formatTemplateH E loc key template vals n h) = h @ ys"
proof -
  obtain r h1 where p: "preprocessMessageValuesH E template vals n h = (r, h1)"
    by (cases "preprocessMessageValuesH E template vals n h")
  from preprocess_extends [of E template vals n h] p obtain ys where "h1 = h @ ys" by auto
  with p show ?thesis
    by (cases r) (auto simp: formatTemplateH_def Let_def split: option.splits sum.splits)
qed

lemma replaceTokenH_extends:
  "\<exists>ys. snd (replaceTokenH E st loc n v lg path h) = h @ ys"
proof (cases "matchUsage v")
  case None
  then show ?thesis by (simp add: replaceTokenH_def)
next
  case (Some p)
  obtain k i where p: "p = (k, i)" by (cases p)
  let ?us = "case formattedStringUsages st k of None \<Rightarrow> [] | Some us \<Rightarrow> us"
  show ?thesis
  proof (cases "arrayGet ?us i")
    case None
    with Some p show ?thesis by (simp add: replaceTokenH_def)
  next
    case u: (Some u)
    obtain r h1 where f: "formatTemplateH E loc k (usage_template u) (usage_values u) n h = (r, h1)"
      by (cases "formatTemplateH E loc k (usage_template u) (usage_values u) n h")
    from formatTemplateH_extends [of E loc k "usage_template u" "usage_values u" n h] f
    obtain ys where "h1 = h @ ys" by auto
    with Some p u f show ?thesis by (cases r) (simp_all add: replaceTokenH_def Let_def)
  qed
qed

text \<open>The traversal from a value whose object is in a closed set writes to objects of
  that set only, whatever its outcome and whatever depth it is given.\<close>

lemma traversal_writesWithin:
  "closedIn h W \<Longrightarrow> (\<forall>a. v = HRef a \<longrightarrow> a \<in> W)
     \<Longrightarrow> writesWithin W h (snd (replaceInObjectH E st loc n v lg path h))"
  "closedIn h W \<Longrightarrow> a \<in> W \<Longrightarrow> (\<forall>e\<in>set es. \<forall>c. snd e = HRef c \<longrightarrow> c \<in> W)
     \<Longrightarrow> writesWithin W h (snd (replaceInEntriesH E st loc n a es lg path h))"
proof (induction E st loc n v lg path h and E st loc n a es lg path h
    rule: replaceInObjectH_replaceInEntriesH.induct)
  case (1 E st loc n a lg path h)
  show ?case
  proof (cases "a < length h")
    case False
    then show ?thesis by (simp add: writesWithin_refl)
  next
    case lt: True
    show ?thesis
    proof (cases n)
      case 0
      with lt show ?thesis by (simp add: writesWithin_refl)
    next
      case (Suc m)
      from "1.prems" have aW: "a \<in> W" by simp
      have refs: "\<forall>e\<in>set (entriesH (h ! a)). \<forall>c. snd e = HRef c \<longrightarrow> c \<in> W"
      proof (intro ballI allI impI)
        fix e c assume "e \<in> set (entriesH (h ! a))" "snd e = HRef c"
        then have "c \<in> refsOf (h ! a)" by (rule entries_refs)
        with "1.prems"(1) aW show "c \<in> W" unfolding closedIn_def by blast
      qed
      from "1.IH" [OF lt Suc "1.prems"(1) aW refs] lt Suc show ?thesis by simp
    qed
  qed
next
  case (4 E st loc n a key v rest lg path h)
  from "4.prems" have aW: "a \<in> W" and cl: "closedIn h W"
    and rest: "\<forall>e\<in>set rest. \<forall>c. snd e = HRef c \<longrightarrow> c \<in> W"
    and vW: "\<forall>c. v = HRef c \<longrightarrow> c \<in> W" by auto
  show ?case
  proof (cases "isTokenStringH v")
    case tok: True
    obtain r h0 where rt: "replaceTokenH E st loc n (tokenTextH v) lg (path @ [key]) h = (r, h0)"
      by (cases "replaceTokenH E st loc n (tokenTextH v) lg (path @ [key]) h")
    from replaceTokenH_extends [of E st loc n "tokenTextH v" lg "path @ [key]" h] rt
    obtain ys where "h0 = h @ ys" by auto
    then have f0: "writesWithin W h h0" by (simp add: writesWithin_append)
    show ?thesis
    proof (cases r)
      case (Done p)
      obtain m lg' where p: "p = (m, lg')" by (cases p)
      let ?h1 = "h0[a := setPropH (h0 ! a) key (HStr m)]"
      have "writesWithin W h0 ?h1" using aW by (rule writesWithin_write)
      with f0 have f1: "writesWithin W h ?h1" by (rule writesWithin_trans)
      have cl1: "closedIn ?h1 W" using cl f1 by (rule writesWithin_closed)
      have "writesWithin W ?h1 (snd (replaceInEntriesH E st loc n a rest lg' path ?h1))"
        using "4.IH"(1) [OF tok rt [symmetric] Done p [symmetric] cl1 aW rest] .
      with f1 have "writesWithin W h (snd (replaceInEntriesH E st loc n a rest lg' path ?h1))"
        by (rule writesWithin_trans)
      with tok rt Done p show ?thesis by simp
    next
      case (Raised e)
      with tok rt f0 show ?thesis by simp
    next
      case OutOfFuel
      with tok rt f0 show ?thesis by simp
    qed
  next
    case nt: False
    obtain r h' where rh: "replaceInObjectH E st loc n v lg (path @ [key]) h = (r, h')"
      by (cases "replaceInObjectH E st loc n v lg (path @ [key]) h")
    from "4.IH"(2) [OF nt cl vW] rh have f1: "writesWithin W h h'" by simp
    show ?thesis
    proof (cases r)
      case (Done lg')
      have cl1: "closedIn h' W" using cl f1 by (rule writesWithin_closed)
      have "writesWithin W h' (snd (replaceInEntriesH E st loc n a rest lg' path h'))"
        using "4.IH"(3) [OF nt rh [symmetric, unfolded Done] refl cl1 aW rest] .
      with f1 have "writesWithin W h (snd (replaceInEntriesH E st loc n a rest lg' path h'))"
        by (rule writesWithin_trans)
      with nt rh Done show ?thesis by simp
    next
      case (Raised e)
      with nt rh f1 show ?thesis by simp
    next
      case OutOfFuel
      with nt rh f1 show ?thesis by simp
    qed
  qed
qed (simp_all add: writesWithin_refl)

text \<open>A pass over a report changes no object that is not one of the report's.\<close>

lemma pass_agreeOutside:
  assumes cl: "closedIn h W" and r: "lhr \<in> W"
  shows "agreeOutside W h (snd (replaceLocaleStringReferencesH E st n lhr loc h))"
proof -
  obtain res h1 where t: "replaceInObjectH E st loc n (HRef lhr) [] [] h = (res, h1)"
    by (cases "replaceInObjectH E st loc n (HRef lhr) [] [] h")
  from traversal_writesWithin(1) [OF cl, of "HRef lhr" E st loc n "[]" "[]"] r t
  have f: "writesWithin W h h1" by simp
  then have len: "length h \<le> length h1" and same: "\<forall>b<length h. b \<notin> W \<longrightarrow> h1 ! b = h ! b"
    by (simp_all add: writesWithin_def)
  show ?thesis
  proof (cases res)
    case (Done lg)
    obtain l h2 where a: "allocTree (logTree lg) h1 = (l, h2)"
      by (cases "allocTree (logTree lg) h1")
    from alloc_prefix(1) [of "logTree lg" h1] a obtain ys where y: "h2 = h1 @ ys" by auto
    have "(h2[lhr := setPropH (h2 ! lhr) ''localeLog'' l]) ! b = h ! b"
      if "b < length h" "b \<notin> W" for b
    proof -
      from that r have ne: "b \<noteq> lhr" by auto
      from that len have "h2 ! b = h1 ! b" by (simp add: y nth_append)
      with ne same that show ?thesis by simp
    qed
    with t Done a y len show ?thesis
      by (simp add: replaceLocaleStringReferencesH_def agreeOutside_def)
  next
    case (Raised e)
    with t len same show ?thesis
      by (simp add: replaceLocaleStringReferencesH_def agreeOutside_def)
  next
    case OutOfFuel
    with t len same show ?thesis
      by (simp add: replaceLocaleStringReferencesH_def agreeOutside_def)
  qed
qed

lemma separateTrees_member:
  "separateTrees h S ts \<Longrightarrow> t \<in> set ts \<Longrightarrow> b \<in> snd t \<Longrightarrow> b < length h"
proof (induction ts)
  case Nil
  then show ?case by simp
next
  case (Cons u ts)
  obtain r W where u: "u = (r, W)" by (cases u)
  from Cons show ?case by (auto simp add: u closedIn_def)
qed

lemma separateTrees_step:
  assumes "separateTrees h S ts" and "length h \<le> length h'"
    and "\<forall>t\<in>set ts. \<forall>b\<in>snd t. h' ! b = h ! b"
  shows "separateTrees h' S ts"
  using assms
proof (induction ts)
  case Nil
  then show ?case by simp
next
  case (Cons t ts)
  obtain r W where t: "t = (r, W)" by (cases t)
  from Cons.prems(1) have rW: "r \<in> W" and cl: "closedIn h W"
    and dS: "W \<inter> S = {}" and dt: "\<forall>t\<in>set ts. W \<inter> snd t = {}" and rest: "separateTrees h S ts"
    by (simp_all add: t)
  from Cons.prems(3) have sameW: "\<forall>b\<in>W. h' ! b = h ! b" by (simp add: t)
  have cl': "closedIn h' W"
    unfolding closedIn_def
  proof (intro ballI conjI)
    fix b assume b: "b \<in> W"
    from cl b have lt: "b < length h" and sub: "refsOf (h ! b) \<subseteq> W" by (simp_all add: closedIn_def)
    from lt Cons.prems(2) show "b < length h'" by simp
    from sameW b sub show "refsOf (h' ! b) \<subseteq> W" by simp
  qed
  have "separateTrees h' S ts"
    using Cons.IH [OF rest Cons.prems(2)] Cons.prems(3) by simp
  with rW cl' dS dt show ?case by (simp add: t)
qed

text \<open>Passes over reports that share nothing with one another and with a set \<open>S\<close> of
  objects leave the objects of \<open>S\<close> as they were.\<close>

lemma passes_keep:
  assumes "separateTrees h S ts" and "\<forall>b\<in>S. b < length h"
  shows "length h \<le> length (snd (resolvePassesH E st n (zip (map fst ts) locs) h))
         \<and> (\<forall>b\<in>S. snd (resolvePassesH E st n (zip (map fst ts) locs) h) ! b = h ! b)"
  using assms
proof (induction ts arbitrary: h locs)
  case Nil
  then show ?case by simp
next
  case (Cons t ts)
  obtain r W where t: "t = (r, W)" by (cases t)
  show ?case
  proof (cases locs)
    case Nil
    then show ?thesis by simp
  next
    case (Cons loc locs')
    from Cons.prems(1) have rW: "r \<in> W" and cl: "closedIn h W"
      and dS: "W \<inter> S = {}" and dt: "\<forall>t\<in>set ts. W \<inter> snd t = {}" and rest: "separateTrees h S ts"
      by (simp_all add: t)
    obtain res h1 where p: "replaceLocaleStringReferencesH E st n r loc h = (res, h1)"
      by (cases "replaceLocaleStringReferencesH E st n r loc h")
    from pass_agreeOutside [OF cl rW, of E st n loc] p
    have len: "length h \<le> length h1" and same: "\<forall>b<length h. b \<notin> W \<longrightarrow> h1 ! b = h ! b"
      by (simp_all add: agreeOutside_def)
    have sameS: "\<forall>b\<in>S. h1 ! b = h ! b" using same dS Cons.prems(2) by blast
    have "\<forall>t\<in>set ts. \<forall>b\<in>snd t. h1 ! b = h ! b"
    proof (intro ballI)
      fix t' b assume t': "t' \<in> set ts" and b: "b \<in> snd t'"
      from dt t' b have nW: "b \<notin> W" by blast
      from rest t' b have "b < length h" by (rule separateTrees_member)
      with same nW show "h1 ! b = h ! b" by simp
    qed
    then have rest1: "separateTrees h1 S ts" by (rule separateTrees_step [OF rest len])
    have S1: "\<forall>b\<in>S. b < length h1" using Cons.prems(2) len by auto
    from Cons.IH [OF rest1 S1, of locs']
    have a: "length h1 \<le> length (snd (resolvePassesH E st n (zip (map fst ts) locs') h1))"
      and b: "\<forall>b\<in>S. snd (resolvePassesH E st n (zip (map fst ts) locs') h1) ! b = h1 ! b"
      by simp_all
    have e: "snd (resolvePassesH E st n (zip (map fst (t # ts)) locs) h)
             = snd (resolvePassesH E st n (zip (map fst ts) locs') h1)"
      unfolding Cons t using p by (simp split: prod.splits)
    from a b len sameS show ?thesis unfolding e by auto
  qed
qed

text \<open>What is read below an object of a closed set depends on the objects of the set
  alone.\<close>

lemma readVal_sameOn:
  "sameOn S h h' \<Longrightarrow> (\<forall>c. v = HRef c \<longrightarrow> c \<in> S) \<Longrightarrow> readVal n h' v = readVal n h v"
  "sameOn S h h' \<Longrightarrow> (\<forall>e\<in>set ps. \<forall>c. snd e = HRef c \<longrightarrow> c \<in> S)
     \<Longrightarrow> readProps n h' ps = readProps n h ps"
  "sameOn S h h' \<Longrightarrow> (\<forall>c. HRef c \<in> set vs \<longrightarrow> c \<in> S) \<Longrightarrow> readElems n h' vs = readElems n h vs"
proof (induction n h v and n h ps and n h vs rule: readVal_readProps_readElems.induct)
  case (7 n h a)
  from "7.prems" have aS: "a \<in> S" by simp
  with "7.prems"(1) have lt: "a < length h" and lt': "a < length h'" and eq: "h' ! a = h ! a"
    and sub: "refsOf (h ! a) \<subseteq> S" by (simp_all add: sameOn_def closedIn_def)
  show ?case
  proof (cases "h ! a")
    case (HObj ps)
    have "\<forall>e\<in>set ps. \<forall>c. snd e = HRef c \<longrightarrow> c \<in> S"
    proof (intro ballI allI impI)
      fix e c assume "e \<in> set ps" "snd e = HRef c"
      then have "c \<in> refsOf (h ! a)" unfolding HObj refsOf_def entriesH_def by force
      with sub show "c \<in> S" by blast
    qed
    from "7.IH"(1) [OF lt HObj "7.prems"(1) this] lt lt' eq HObj show ?thesis by simp
  next
    case (HArr xs)
    have "\<forall>c. HRef c \<in> set xs \<longrightarrow> c \<in> S"
    proof (intro allI impI)
      fix c assume "HRef c \<in> set xs"
      then have "c \<in> refsOf (h ! a)" unfolding HArr refsOf_def by (simp add: snd_set_entries_arr)
      with sub show "c \<in> S" by blast
    qed
    from "7.IH"(2) [OF lt HArr "7.prems"(1) this] lt lt' eq HArr show ?thesis by simp
  qed
next
  case (9 n h k v ps)
  from "9.prems" have v: "\<forall>c. v = HRef c \<longrightarrow> c \<in> S"
    and ps: "\<forall>e\<in>set ps. \<forall>c. snd e = HRef c \<longrightarrow> c \<in> S" by simp_all
  have a: "readVal n h' v = readVal n h v" using "9.IH"(1) [OF "9.prems"(1) v] .
  show ?case
  proof (cases "readVal n h v")
    case None
    with a show ?thesis by simp
  next
    case (Some w)
    from "9.IH"(2) [OF Some "9.prems"(1) ps] a Some show ?thesis by simp
  qed
next
  case (11 n h v vs)
  from "11.prems" have v: "\<forall>c. v = HRef c \<longrightarrow> c \<in> S"
    and vs: "\<forall>c. HRef c \<in> set vs \<longrightarrow> c \<in> S" by simp_all
  have a: "readVal n h' v = readVal n h v" using "11.IH"(1) [OF "11.prems"(1) v] .
  show ?case
  proof (cases "readVal n h v")
    case None
    with a show ?thesis by simp
  next
    case (Some w)
    from "11.IH"(2) [OF Some "11.prems"(1) vs] a Some show ?thesis by simp
  qed
qed simp_all


subsection \<open>The preprocessor on the store and on values\<close>

lemma readVal_Suc:
  "readVal n h v = Some t \<Longrightarrow> readVal (Suc n) h v = Some t"
  "readProps n h ps = Some ob \<Longrightarrow> readProps (Suc n) h ps = Some ob"
  "readElems n h vs = Some xs \<Longrightarrow> readElems (Suc n) h vs = Some xs"
proof (induction n h v and n h ps and n h vs arbitrary: t and ob and xs
    rule: readVal_readProps_readElems.induct)
  case (7 n h a)
  from "7.prems" have lt: "a < length h" by (simp split: if_splits)
  show ?case
  proof (cases "h ! a")
    case (HObj ps)
    with "7.prems" lt obtain ob where r: "readProps n h ps = Some ob" and t: "t = JObj ob" by auto
    from "7.IH"(1) [OF lt HObj r] lt HObj t show ?thesis by simp
  next
    case (HArr vs)
    with "7.prems" lt obtain xs where r: "readElems n h vs = Some xs" and t: "t = JArr xs" by auto
    from "7.IH"(2) [OF lt HArr r] lt HArr t show ?thesis by simp
  qed
next
  case (9 n h k v ps)
  from "9.prems" obtain w ws where a: "readVal n h v = Some w" and b: "readProps n h ps = Some ws"
    and ob: "ob = (k, w) # ws" by (auto split: option.splits)
  from "9.IH"(1) [OF a] "9.IH"(2) [OF a b] ob show ?case by simp
next
  case (11 n h v vs)
  from "11.prems" obtain w ws where a: "readVal n h v = Some w" and b: "readElems n h vs = Some ws"
    and xs: "xs = w # ws" by (auto split: option.splits)
  from "11.IH"(1) [OF a] "11.IH"(2) [OF a b] xs show ?case by simp
qed simp_all

lemma readVal_append:
  "readVal n h v = Some t \<Longrightarrow> readVal n (h @ ys) v = Some t"
  "readProps n h ps = Some ob \<Longrightarrow> readProps n (h @ ys) ps = Some ob"
  "readElems n h vs = Some xs \<Longrightarrow> readElems n (h @ ys) vs = Some xs"
proof (induction n h v and n h ps and n h vs arbitrary: t and ob and xs
    rule: readVal_readProps_readElems.induct)
  case (7 n h a)
  from "7.prems" have lt: "a < length h" by (simp split: if_splits)
  then have e: "(h @ ys) ! a = h ! a" by (simp add: nth_append)
  show ?case
  proof (cases "h ! a")
    case (HObj ps)
    with "7.prems" lt obtain ob where r: "readProps n h ps = Some ob" and t: "t = JObj ob" by auto
    from "7.IH"(1) [OF lt HObj r] lt HObj t e show ?thesis by simp
  next
    case (HArr vs)
    with "7.prems" lt obtain xs where r: "readElems n h vs = Some xs" and t: "t = JArr xs" by auto
    from "7.IH"(2) [OF lt HArr r] lt HArr t e show ?thesis by simp
  qed
next
  case (9 n h k v ps)
  from "9.prems" obtain w ws where a: "readVal n h v = Some w" and b: "readProps n h ps = Some ws"
    and ob: "ob = (k, w) # ws" by (auto split: option.splits)
  from "9.IH"(1) [OF a] "9.IH"(2) [OF a b] ob show ?case by simp
next
  case (11 n h v vs)
  from "11.prems" obtain w ws where a: "readVal n h v = Some w" and b: "readElems n h vs = Some ws"
    and xs: "xs = w # ws" by (auto split: option.splits)
  from "11.IH"(1) [OF a] "11.IH"(2) [OF a b] xs show ?case by simp
qed simp_all

text \<open>What is read to the depth \<open>n\<close> fits that depth, and so does its copy.\<close>

lemma readVal_fits:
  "readVal n h v = Some t \<Longrightarrow> fits n t"
  "readProps n h ps = Some ob \<Longrightarrow> list_all (\<lambda>(k, v). fits n v) ob"
  "readElems n h vs = Some xs \<Longrightarrow> list_all (fits n) xs"
proof (induction n h v and n h ps and n h vs arbitrary: t and ob and xs
    rule: readVal_readProps_readElems.induct)
  case (7 n h a)
  from "7.prems" have lt: "a < length h" by (simp split: if_splits)
  show ?case
  proof (cases "h ! a")
    case (HObj ps)
    with "7.prems" lt obtain ob where r: "readProps n h ps = Some ob" and t: "t = JObj ob" by auto
    from "7.IH"(1) [OF lt HObj r] t show ?thesis by simp
  next
    case (HArr vs)
    with "7.prems" lt obtain xs where r: "readElems n h vs = Some xs" and t: "t = JArr xs" by auto
    from "7.IH"(2) [OF lt HArr r] t show ?thesis by simp
  qed
next
  case (9 n h k v ps)
  from "9.prems" obtain w ws where a: "readVal n h v = Some w" and b: "readProps n h ps = Some ws"
    and ob: "ob = (k, w) # ws" by (auto split: option.splits)
  from "9.IH"(1) [OF a] "9.IH"(2) [OF a b] ob show ?case by simp
next
  case (11 n h v vs)
  from "11.prems" obtain w ws where a: "readVal n h v = Some w" and b: "readElems n h vs = Some ws"
    and xs: "xs = w # ws" by (auto split: option.splits)
  from "11.IH"(1) [OF a] "11.IH"(2) [OF a b] xs show ?case by simp
qed auto

lemma fits_jsonClone: "fits n v \<Longrightarrow> fits n (jsonClone v)"
proof (induction v arbitrary: n rule: jsonClone.induct)
  case (2 xs)
  then obtain m where n: "n = Suc m" and a: "list_all (fits m) xs"
    by (cases n) simp_all
  define f where "f = (\<lambda>v. if v = JUndefined then JNull else jsonClone v)"
  have H: "fits m (f v)" if "v \<in> set xs" for v
  proof (cases "v = JUndefined")
    case True
    then show ?thesis by (simp add: f_def)
  next
    case False
    from a that have "fits m v" by (simp add: list_all_iff)
    from "2.IH" [OF that False this] False show ?thesis by (simp add: f_def)
  qed
  have "list_all (fits m) (map f xs)"
    unfolding list_all_iff
  proof
    fix y assume "y \<in> set (map f xs)"
    then obtain v where "v \<in> set xs" "y = f v" by auto
    with H show "fits m y" by simp
  qed
  then show ?case by (simp add: n f_def)
next
  case (3 ob)
  then obtain m where n: "n = Suc m" and a: "list_all (\<lambda>(k, v). fits m v) ob"
    by (cases n) simp_all
  have "fits m (jsonClone v)" if "(k, v) \<in> set ob" "v \<noteq> JUndefined" for k v
  proof -
    from a that(1) have f: "fits m v" by (auto simp: list_all_iff)
    from that have "(k, v) \<in> set (filter (\<lambda>(k, v). v \<noteq> JUndefined) ob)" by simp
    from "3.IH" [OF this refl f] show ?thesis .
  qed
  then show ?case by (auto simp: n list_all_iff)
qed (simp_all split: jsnum.splits)

text \<open>A tree laid out in the store reads as the tree.\<close>

lemma alloc_read_elems:
  assumes "\<And>x n h l h1. x \<in> set xs \<Longrightarrow> fits n x \<Longrightarrow> allocTree (treeOf x) h = (l, h1)
             \<Longrightarrow> readVal n h1 l = Some x"
    and "list_all (fits m) xs" and "allocElems (map treeOf xs) h = (vs, hp)"
  shows "readElems m hp vs = Some xs"
  using assms
proof (induction xs arbitrary: h vs hp)
  case Nil
  then show ?case by auto
next
  case (Cons x xs)
  obtain v h1 where a: "allocTree (treeOf x) h = (v, h1)" by (cases "allocTree (treeOf x) h")
  obtain vs' h2 where b: "allocElems (map treeOf xs) h1 = (vs', h2)"
    by (cases "allocElems (map treeOf xs) h1")
  from Cons.prems(3) a b have vs: "vs = v # vs'" and hp: "hp = h2" by simp_all
  from Cons.prems(2) have fx: "fits m x" and fxs: "list_all (fits m) xs" by simp_all
  have r1: "readVal m h1 v = Some x" by (rule Cons.prems(1) [OF _ fx a]) simp
  from alloc_prefix(3) [of "map treeOf xs" h1] b obtain zs where "h2 = h1 @ zs" by auto
  with r1 have r2: "readVal m h2 v = Some x" by (simp add: readVal_append(1))
  have "readElems m h2 vs' = Some xs"
    by (rule Cons.IH [OF _ fxs b]) (rule Cons.prems(1), simp_all)
  with r2 vs hp show ?case by simp
qed

lemma alloc_read_props:
  assumes "\<And>k x n h l h1. (k, x) \<in> set ob \<Longrightarrow> fits n x \<Longrightarrow> allocTree (treeOf x) h = (l, h1)
             \<Longrightarrow> readVal n h1 l = Some x"
    and "list_all (\<lambda>(k, v). fits m v) ob"
    and "allocProps (map (\<lambda>(k, v). (k, treeOf v)) ob) h = (ps, hp)"
  shows "readProps m hp ps = Some ob"
  using assms
proof (induction ob arbitrary: h ps hp)
  case Nil
  then show ?case by auto
next
  case (Cons e ob)
  obtain k x where e: "e = (k, x)" by (cases e)
  obtain v h1 where a: "allocTree (treeOf x) h = (v, h1)" by (cases "allocTree (treeOf x) h")
  obtain ps' h2 where b: "allocProps (map (\<lambda>(k, v). (k, treeOf v)) ob) h1 = (ps', h2)"
    by (cases "allocProps (map (\<lambda>(k, v). (k, treeOf v)) ob) h1")
  from Cons.prems(3) a b have ps: "ps = (k, v) # ps'" and hp: "hp = h2" by (simp_all add: e)
  from Cons.prems(2) have fx: "fits m x" and fob: "list_all (\<lambda>(k, v). fits m v) ob"
    by (simp_all add: e)
  have r1: "readVal m h1 v = Some x" by (rule Cons.prems(1) [of k x, OF _ fx a]) (simp add: e)
  from alloc_prefix(2) [of "map (\<lambda>(k, v). (k, treeOf v)) ob" h1] b
  obtain zs where "h2 = h1 @ zs" by auto
  with r1 have r2: "readVal m h2 v = Some x" by (simp add: readVal_append(1))
  have ih: "readVal n h1 l = Some x"
    if "(k, x) \<in> set ob" "fits n x" "allocTree (treeOf x) h = (l, h1)" for k x n h l h1
    using Cons.prems(1) [of k x n h l h1] that by simp
  have "readProps m h2 ps' = Some ob"
    by (rule Cons.IH [OF _ fob b]) (rule ih)
  with r2 ps hp show ?case by (simp add: e)
qed

lemma alloc_read:
  "fits n t \<Longrightarrow> allocTree (treeOf t) h = (l, h1) \<Longrightarrow> readVal n h1 l = Some t"
proof (induction t arbitrary: n h l h1 rule: treeOf.induct)
  case (6 xs)
  from "6.prems"(1) obtain m where n: "n = Suc m" and f: "list_all (fits m) xs"
    by (cases n) simp_all
  obtain vs hp where a: "allocElems (map treeOf xs) h = (vs, hp)"
    by (cases "allocElems (map treeOf xs) h")
  have "readElems m hp vs = Some xs"
    by (rule alloc_read_elems [OF _ f a]) (rule "6.IH")
  then have "readElems m (hp @ [HArr vs]) vs = Some xs" by (rule readVal_append(3))
  with "6.prems"(2) a n show ?case by auto
next
  case (7 ob)
  from "7.prems"(1) obtain m where n: "n = Suc m" and f: "list_all (\<lambda>(k, v). fits m v) ob"
    by (cases n) simp_all
  obtain ps hp where a: "allocProps (map (\<lambda>(k, v). (k, treeOf v)) ob) h = (ps, hp)"
    by (cases "allocProps (map (\<lambda>(k, v). (k, treeOf v)) ob) h")
  have ih: "readVal n h1 l = Some x"
    if "(k, x) \<in> set ob" "fits n x" "allocTree (treeOf x) h = (l, h1)" for k x n h l h1
    using "7.IH" [OF that(1) refl that(2) that(3)] .
  have "readProps m hp ps = Some ob"
    by (rule alloc_read_props [OF _ f a]) (rule ih)
  then have "readProps m (hp @ [HObj ps]) ps = Some ob" by (rule readVal_append(2))
  with "7.prems"(2) a n show ?case by auto
qed auto

text \<open>The object of the copy and the values it reads as, under the writes of the
  callbacks.\<close>

lemma readProps_keys: "readProps m P ps = Some cv \<Longrightarrow> map fst cv = map fst ps"
proof (induction ps arbitrary: cv)
  case Nil
  then show ?case by simp
next
  case (Cons e ps)
  obtain k v where e: "e = (k, v)" by (cases e)
  from Cons.prems obtain w ws where "readProps m P ps = Some ws" and "cv = (k, w) # ws"
    by (auto simp: e split: option.splits)
  with Cons.IH [of ws] show ?case by (simp add: e)
qed

lemma readProps_map_of:
  "readProps m P ps = Some cv \<Longrightarrow>
   map_of cv k = (case map_of ps k of None \<Rightarrow> None | Some w \<Rightarrow> readVal m P w)"
proof (induction ps arbitrary: cv)
  case Nil
  then show ?case by simp
next
  case (Cons e ps)
  obtain k' v where e: "e = (k', v)" by (cases e)
  from Cons.prems obtain w ws where a: "readVal m P v = Some w"
    and b: "readProps m P ps = Some ws" and cv: "cv = (k', w) # ws"
    by (auto simp: e split: option.splits)
  from Cons.IH [OF b] a show ?case by (simp add: e cv)
qed

lemma readProps_update:
  "readProps m P ps = Some cv \<Longrightarrow> readVal m P v = Some w \<Longrightarrow>
   readProps m P (map (\<lambda>(k', v'). if k' = k then (k', v) else (k', v')) ps) =
     Some (map (\<lambda>(k', v'). if k' = k then (k', w) else (k', v')) cv)"
proof (induction ps arbitrary: cv)
  case Nil
  then show ?case by simp
next
  case (Cons e ps)
  obtain k' v' where e: "e = (k', v')" by (cases e)
  from Cons.prems(1) obtain w' ws where a: "readVal m P v' = Some w'"
    and b: "readProps m P ps = Some ws" and cv: "cv = (k', w') # ws"
    by (auto simp: e split: option.splits)
  from Cons.IH [OF b Cons.prems(2)] a Cons.prems(2) show ?case by (simp add: e cv)
qed

lemma readProps_objInsert:
  "readProps m P ps = Some cv \<Longrightarrow> readVal m P v = Some w \<Longrightarrow>
   readProps m P (objInsert k v ps) = Some (objInsert k w cv)"
proof (induction ps arbitrary: cv)
  case Nil
  then show ?case by simp
next
  case (Cons e ps)
  obtain k' v' where e: "e = (k', v')" by (cases e)
  from Cons.prems(1) obtain w' ws where a: "readVal m P v' = Some w'"
    and b: "readProps m P ps = Some ws" and cv: "cv = (k', w') # ws"
    by (auto simp: e split: option.splits)
  from Cons.IH [OF b Cons.prems(2)] a b Cons.prems(2) show ?case by (auto simp add: e cv)
qed

lemma readProps_objSet:
  assumes "readProps m P ps = Some cv" and "readVal m P v = Some w"
  shows "readProps m P (objSet ps k v) = Some (objSet cv k w)"
proof -
  from readProps_keys [OF assms(1)] have "set (map fst cv) = set (map fst ps)" by simp
  then have "(k \<in> fst ` set cv) = (k \<in> fst ` set ps)" by simp
  then show ?thesis
    unfolding objSet_def
    using readProps_update [OF assms] readProps_objInsert [OF assms] by simp
qed

lemma toNumberH_copy:
  assumes "readProps m P ps = Some cv"
  shows "toNumberH E (Suc m) (P @ [HObj ps]) (getPropH (HObj ps) k) =
           Some (toNumber E (objGet cv k))"
proof (cases "map_of ps k")
  case None
  with readProps_map_of [OF assms, of k] show ?thesis
    by (simp add: toNumberH_def getPropH_def entriesH_def objGet_def toNumber_def)
next
  case (Some v)
  with readProps_map_of [OF assms, of k] have c: "map_of cv k = readVal m P v" by simp
  from Some have "(k, v) \<in> set ps" by (rule map_of_SomeD)
  have "\<exists>w. readVal m P v = Some w" using assms \<open>(k, v) \<in> set ps\<close>
  proof (induction ps arbitrary: cv)
    case Nil
    then show ?case by simp
  next
    case (Cons e ps)
    obtain k' v' where e: "e = (k', v')" by (cases e)
    from Cons.prems(1) obtain w' ws where a: "readVal m P v' = Some w'"
      and b: "readProps m P ps = Some ws" by (auto simp: e split: option.splits)
    from Cons.prems(2) consider "(k, v) = (k', v')" | "(k, v) \<in> set ps" by (auto simp: e)
    then show ?case
    proof cases
      case 1
      with a show ?thesis by simp
    next
      case 2
      from Cons.IH [OF b 2] show ?thesis .
    qed
  qed
  then obtain w where w: "readVal m P v = Some w" by blast
  then have "readVal (Suc m) P v = Some w" by (rule readVal_Suc(1))
  then have "readVal (Suc m) (P @ [HObj ps]) v = Some w" by (rule readVal_append(1))
  with Some c w show ?thesis
    by (simp add: toNumberH_def getPropH_def entriesH_def objGet_def)
qed

lemma forEachH_copy:
  assumes f: "\<And>h el. f h el =
                 (case toNumberH E (Suc m) h (getPropH (h ! length P) (elId el)) of
                    None \<Rightarrow> None
                  | Some x \<Rightarrow> Some (h[length P := setPropH (h ! length P) (elId el) (HNum (g x))]))"
    and f': "\<And>c el. f' c el = objSet c (elId el) (JNum (g (toNumber E (objGet c (elId el)))))"
    and "readProps m P ps = Some cv"
  shows "\<exists>ps'. forEachH f els (P @ [HObj ps]) = (True, P @ [HObj ps'])
               \<and> readProps m P ps' = Some (foldl f' cv els)"
  using assms(3)
proof (induction els arbitrary: ps cv)
  case Nil
  then show ?case by simp
next
  case (Cons el els)
  let ?x = "toNumber E (objGet cv (elId el))"
  let ?ps1 = "objSet ps (elId el) (HNum (g ?x))"
  have s: "f (P @ [HObj ps]) el = Some (P @ [HObj ?ps1])"
    by (simp add: f toNumberH_copy [OF Cons.prems] setPropH_def)
  have "readProps m P ?ps1 = Some (objSet cv (elId el) (JNum (g ?x)))"
    by (rule readProps_objSet [OF Cons.prems]) simp
  then have r: "readProps m P ?ps1 = Some (f' cv el)" by (simp add: f')
  from Cons.IH [OF r] s show ?case by simp
qed

text \<open>The preprocessor on the store, called on a values object that reads as \<open>vs\<close>,
  does what the preprocessor on values does with \<open>vs\<close>: it throws when that one
  throws, and else returns the address of a new object that reads as the result of
  that one. No object that was in the store is changed.\<close>

lemma preprocessH_refines:
  assumes r: "readVal n h (HRef a) = Some (JObj vs)"
  shows "\<exists>ys. snd (preprocessMessageValuesH E msg (Some a) n h) = h @ ys
          \<and> (case preprocessMessageValues E msg (Some vs) of
                Inl e \<Rightarrow> fst (preprocessMessageValuesH E msg (Some a) n h) = Raised e
              | Inr out \<Rightarrow>
                  (\<exists>c. fst (preprocessMessageValuesH E msg (Some a) n h) = Done (Some c)
                     \<and> length h \<le> c
                     \<and> readRecord n (snd (preprocessMessageValuesH E msg (Some a) n h)) (Some c)
                         = Some out))"
proof -
  from r obtain m where n: "n = Suc m" by (cases n) simp_all
  let ?cv = "jsonCloneObj vs"
  have jc: "jsonClone (JObj vs) = JObj ?cv" by (simp add: jsonCloneObj_def)
  from readVal_fits(1) [OF r] have "fits n (jsonClone (JObj vs))" by (rule fits_jsonClone)
  then have "fits (Suc m) (JObj ?cv)" unfolding jc n .
  then have fcv: "list_all (\<lambda>(k, v). fits m v) ?cv" by simp
  obtain ps0 P where ap: "allocProps (map (\<lambda>(k, v). (k, treeOf v)) ?cv) h = (ps0, P)"
    by (cases "allocProps (map (\<lambda>(k, v). (k, treeOf v)) ?cv) h")
  from alloc_prefix(2) [of "map (\<lambda>(k, v). (k, treeOf v)) ?cv" h] ap
  obtain ys0 where P: "P = h @ ys0" by auto
  have "allocTree (treeOf (JObj ?cv)) h = (HRef (length P), P @ [HObj ps0])"
    by (simp add: ap)
  then have al: "allocTree (treeOf (jsonClone (JObj vs))) h = (HRef (length P), P @ [HObj ps0])"
    unfolding jc .
  have r0: "readProps m P ps0 = Some ?cv"
    by (rule alloc_read_props [OF _ fcv ap]) (rule alloc_read)
  show ?thesis
  proof (cases "MessageParser_parse E msg")
    case (Inl e)
    from Inl r al P show ?thesis
      by (simp add: preprocessMessageValuesH_def preprocessMessageValues_def)
  next
    case (Inr els)
    let ?ms = "filter (hasStyle ''milliseconds'') els"
    let ?bs = "filter (hasStyle ''bytes'') els"
    have "\<exists>ps1. forEachH (roundMillisecondsH E (Suc m) (length P)) ?ms (P @ [HObj ps0])
                  = (True, P @ [HObj ps1])
               \<and> readProps m P ps1 = Some (foldl (roundMilliseconds E) ?cv ?ms)"
      by (rule forEachH_copy [where g = "\<lambda>x. numMul (mathRound (numDiv x 10)) 10", OF _ _ r0])
        (simp_all add: roundMillisecondsH_def roundMilliseconds_def)
    then obtain ps1 where
      f1: "forEachH (roundMillisecondsH E (Suc m) (length P)) ?ms (P @ [HObj ps0])
             = (True, P @ [HObj ps1])"
      and r1: "readProps m P ps1 = Some (foldl (roundMilliseconds E) ?cv ?ms)" by blast
    have "\<exists>ps2. forEachH (bytesToKBH E (Suc m) (length P)) ?bs (P @ [HObj ps1])
                  = (True, P @ [HObj ps2])
               \<and> readProps m P ps2
                   = Some (foldl (bytesToKB E) (foldl (roundMilliseconds E) ?cv ?ms) ?bs)"
      by (rule forEachH_copy [where g = "\<lambda>x. numDiv x 1024", OF _ _ r1])
        (simp_all add: bytesToKBH_def bytesToKB_def)
    then obtain ps2 where
      f2: "forEachH (bytesToKBH E (Suc m) (length P)) ?bs (P @ [HObj ps1])
             = (True, P @ [HObj ps2])"
      and r2: "readProps m P ps2
                 = Some (foldl (bytesToKB E) (foldl (roundMilliseconds E) ?cv ?ms) ?bs)" by blast
    from r2 have r2': "readProps m (P @ [HObj ps2]) ps2
                 = Some (foldl (bytesToKB E) (foldl (roundMilliseconds E) ?cv ?ms) ?bs)"
      by (rule readVal_append(2))
    have res: "preprocessMessageValuesH E msg (Some a) n h = (Done (Some (length P)), P @ [HObj ps2])"
      using r al Inr f1 f2 by (simp add: preprocessMessageValuesH_def n)
    have val: "preprocessMessageValues E msg (Some vs)
                 = Inr (Some (foldl (bytesToKB E) (foldl (roundMilliseconds E) ?cv ?ms) ?bs))"
      using Inr by (simp add: preprocessMessageValues_def Let_def)
    have rd: "readRecord n (P @ [HObj ps2]) (Some (length P))
                = Some (Some (foldl (bytesToKB E) (foldl (roundMilliseconds E) ?cv ?ms) ?bs))"
      using r2' by (simp add: readRecord_def n)
    from res val rd P show ?thesis by simp
  qed
qed

lemma formatTemplateH_refines:
  assumes "readVal n h (HRef a) = Some (JObj vs)"
  shows "fst (formatTemplateH E loc key template (Some a) n h) =
           (case formatTemplate E loc key template (Some vs) of
              Inl e \<Rightarrow> Raised e | Inr res \<Rightarrow> Done res)"
proof -
  from preprocessH_refines [OF assms, of E template] obtain ys where
    s: "snd (preprocessMessageValuesH E template (Some a) n h) = h @ ys"
    and c: "case preprocessMessageValues E template (Some vs) of
              Inl e \<Rightarrow> fst (preprocessMessageValuesH E template (Some a) n h) = Raised e
            | Inr out \<Rightarrow>
                (\<exists>c. fst (preprocessMessageValuesH E template (Some a) n h) = Done (Some c)
                   \<and> length h \<le> c
                   \<and> readRecord n (snd (preprocessMessageValuesH E template (Some a) n h)) (Some c)
                       = Some out)"
    by blast
  obtain r h1 where p: "preprocessMessageValuesH E template (Some a) n h = (r, h1)"
    by (cases "preprocessMessageValuesH E template (Some a) n h")
  show ?thesis
  proof (cases "preprocessMessageValues E template (Some vs)")
    case (Inl e)
    with c p have "r = Raised e" by simp
    with p Inl show ?thesis by (simp add: formatTemplateH_def formatTemplate_def Let_def)
  next
    case (Inr out)
    with c p obtain c' where "r = Done (Some c')" and "readRecord n h1 (Some c') = Some out"
      by auto
    with p Inr show ?thesis
      by (simp add: formatTemplateH_def formatTemplate_def Let_def split: sum.splits)
  qed
qed

lemma readRecord_append:
  assumes a: "readRecord n h v = Some r"
  shows "readRecord n (h @ ys) v = Some r"
proof (cases v)
  case None
  with a show ?thesis by (simp add: readRecord_def)
next
  case (Some c)
  with a obtain t where t: "readVal n h (HRef c) = Some t"
    by (auto simp: readRecord_def split: option.splits)
  from t have "readVal n (h @ ys) (HRef c) = Some t" by (rule readVal_append(1))
  with a t Some show ?thesis by (simp add: readRecord_def)
qed

text \<open>The preprocessor applied twice to the same template and values object: both
  times it does what the preprocessor on values does with what the object reads as,
  the two results are new objects that read the same, and the values object reads
  as before.\<close>

lemma preprocessH_twice:
  assumes r: "readVal n h (HRef a) = Some (JObj vs)"
  shows "let p1 = preprocessMessageValuesH E msg (Some a) n h;
             p2 = preprocessMessageValuesH E msg (Some a) n (snd p1)
         in readVal n (snd p2) (HRef a) = Some (JObj vs)
            \<and> (case preprocessMessageValues E msg (Some vs) of
                  Inl e \<Rightarrow> fst p1 = Raised e \<and> fst p2 = Raised e
                | Inr out \<Rightarrow>
                    (\<exists>c1 c2. fst p1 = Done (Some c1) \<and> fst p2 = Done (Some c2)
                       \<and> a < c1 \<and> a < c2
                       \<and> readRecord n (snd p1) (Some c1) = Some out
                       \<and> readRecord n (snd p2) (Some c1) = Some out
                       \<and> readRecord n (snd p2) (Some c2) = Some out))"
proof -
  define p1 where "p1 = preprocessMessageValuesH E msg (Some a) n h"
  define p2 where "p2 = preprocessMessageValuesH E msg (Some a) n (snd p1)"
  from r have lt: "a < length h" by (cases n) (simp_all split: if_splits)
  from preprocessH_refines [OF r, of E msg] obtain ys1 where
    s1: "snd p1 = h @ ys1"
    and c1: "case preprocessMessageValues E msg (Some vs) of
              Inl e \<Rightarrow> fst p1 = Raised e
            | Inr out \<Rightarrow>
                (\<exists>c. fst p1 = Done (Some c) \<and> length h \<le> c
                   \<and> readRecord n (snd p1) (Some c) = Some out)"
    unfolding p1_def by blast
  from r have r1: "readVal n (snd p1) (HRef a) = Some (JObj vs)"
    unfolding s1 by (rule readVal_append(1))
  from preprocessH_refines [OF r1, of E msg] obtain ys2 where
    s2: "snd p2 = snd p1 @ ys2"
    and c2: "case preprocessMessageValues E msg (Some vs) of
              Inl e \<Rightarrow> fst p2 = Raised e
            | Inr out \<Rightarrow>
                (\<exists>c. fst p2 = Done (Some c) \<and> length (snd p1) \<le> c
                   \<and> readRecord n (snd p2) (Some c) = Some out)"
    unfolding p2_def by blast
  from r1 have r2: "readVal n (snd p2) (HRef a) = Some (JObj vs)"
    unfolding s2 by (rule readVal_append(1))
  have "case preprocessMessageValues E msg (Some vs) of
          Inl e \<Rightarrow> fst p1 = Raised e \<and> fst p2 = Raised e
        | Inr out \<Rightarrow>
            (\<exists>c1 c2. fst p1 = Done (Some c1) \<and> fst p2 = Done (Some c2)
               \<and> a < c1 \<and> a < c2
               \<and> readRecord n (snd p1) (Some c1) = Some out
               \<and> readRecord n (snd p2) (Some c1) = Some out
               \<and> readRecord n (snd p2) (Some c2) = Some out)"
  proof (cases "preprocessMessageValues E msg (Some vs)")
    case (Inl e)
    with c1 c2 show ?thesis by simp
  next
    case (Inr out)
    with c1 obtain d1 where d1: "fst p1 = Done (Some d1)" "length h \<le> d1"
      "readRecord n (snd p1) (Some d1) = Some out" by auto
    from Inr c2 obtain d2 where d2: "fst p2 = Done (Some d2)" "length (snd p1) \<le> d2"
      "readRecord n (snd p2) (Some d2) = Some out" by auto
    from d1(3) have k: "readRecord n (snd p2) (Some d1) = Some out"
      unfolding s2 by (rule readRecord_append)
    from lt d1(2) have "a < d1" by simp
    moreover from lt d2(2) s1 have "a < d2" by simp
    ultimately show ?thesis using Inr d1 d2 k by auto
  qed
  with r2 show ?thesis unfolding Let_def p1_def [symmetric] p2_def [symmetric] by simp
qed

text \<open>On the sample report, laid out in an empty store, the pass over the store
  returns, and the report then reads as the report the pass over trees returns.\<close>

lemma store_pass_on_sample:
  "(case allocTree (treeOf (JObj sampleReport)) [] of
      (HRef r, h) \<Rightarrow>
        (case replaceLocaleStringReferences sampleEnv sampleReport ''fr'' sampleState of
           (Inr res, s) \<Rightarrow>
             fst (replaceLocaleStringReferencesH sampleEnv sampleStoreState 8 r ''fr'' h) = Done ()
             \<and> readVal 8 (snd (replaceLocaleStringReferencesH sampleEnv sampleStoreState 8 r ''fr'' h))
                   (HRef r) = Some (JObj res)
         | _ \<Rightarrow> False)
    | _ \<Rightarrow> False)"
  by code_simp

text \<open>
  C4, amended. Over the store, where objects live at addresses and the preprocessor
  and the resolver write to them:

  \<^item> the preprocessor changes no object that was in the store, whatever it is called
    on: what it writes to is the copy it has laid out;
  \<^item> called twice on a template and a values object that reads as \<open>vs\<close>, it does both
    times what the preprocessor on values does with \<open>vs\<close>; the two mappings it returns
    are new objects that read the same, and the values object reads as before;
  \<^item> resolution, preprocessing included, does not write to stored values as long as
    the reports resolved share no object with them and with one another: with \<open>S\<close> a
    closed set of objects of the store (the values objects of the Usage Records and
    what they refer to), after passes at any locales over such reports, whatever
    their outcomes and the depth \<open>n\<close> they are given, every object of \<open>S\<close> is as it
    was, and what is read below it, to any depth \<open>k\<close>, is what was read before.
\<close>

theorem stored_values_unchanged:
  assumes "separateTrees h S ts" and "closedIn h S"
    and "readVal n h (HRef a) = Some (JObj vs)"
  shows "(\<exists>ys. snd (preprocessMessageValuesH E msg vals n' h') = h' @ ys)
         \<and> (let p1 = preprocessMessageValuesH E msg (Some a) n h;
                 p2 = preprocessMessageValuesH E msg (Some a) n (snd p1)
             in readVal n (snd p2) (HRef a) = Some (JObj vs)
                \<and> (case preprocessMessageValues E msg (Some vs) of
                      Inl e \<Rightarrow> fst p1 = Raised e \<and> fst p2 = Raised e
                    | Inr out \<Rightarrow>
                        (\<exists>c1 c2. fst p1 = Done (Some c1) \<and> fst p2 = Done (Some c2)
                           \<and> a < c1 \<and> a < c2
                           \<and> readRecord n (snd p1) (Some c1) = Some out
                           \<and> readRecord n (snd p2) (Some c1) = Some out
                           \<and> readRecord n (snd p2) (Some c2) = Some out)))
         \<and> (\<forall>b\<in>S. snd (resolvePassesH E st n (zip (map fst ts) locs) h) ! b = h ! b)
         \<and> (\<forall>b\<in>S. readRecord k (snd (resolvePassesH E st n (zip (map fst ts) locs) h)) (Some b)
                    = readRecord k h (Some b))"
proof -
  let ?h' = "snd (resolvePassesH E st n (zip (map fst ts) locs) h)"
  from assms(2) have lt: "\<forall>b\<in>S. b < length h" by (simp add: closedIn_def)
  from passes_keep [OF assms(1) lt, of E st n locs]
  have len: "length h \<le> length ?h'" and same: "\<forall>b\<in>S. ?h' ! b = h ! b" by simp_all
  from lt len have "\<forall>b\<in>S. b < length ?h'" by auto
  with assms(2) same have so: "sameOn S h ?h'" by (simp add: sameOn_def)
  have rd: "readRecord k ?h' (Some b) = readRecord k h (Some b)" if "b \<in> S" for b
  proof -
    from that have "readVal k ?h' (HRef b) = readVal k h (HRef b)"
      by (intro readVal_sameOn(1) [OF so]) simp
    then show ?thesis by (simp add: readRecord_def)
  qed
  note ext = preprocess_extends [of E msg vals n' h']
  note twice = preprocessH_twice [OF assms(3), of E msg]
  from ext twice same rd show ?thesis by blast
qed

text \<open>The values object of \<open>nestedState\<close>, preprocessed twice for its template, and
  two copies of a report that holds the token, resolved one after the other at two
  locales: the preprocessor returns two new objects that read as the values, both
  passes return, and the values object of the Usage Record reads as before.\<close>

theorem stored_values_unchanged_witness:
  "separateTrees copiesStore {0} [(1, {1}), (2, {2})] \<and> closedIn copiesStore {0}
   \<and> readVal 8 copiesStore (HRef 0) = Some (JObj [(''part'', JStr ''audits/a.js!#title#0'')])
   \<and> preprocessMessageValues sampleEnv ''Total {part}.''
        (Some [(''part'', JStr ''audits/a.js!#title#0'')])
       = Inr (Some [(''part'', JStr ''audits/a.js!#title#0'')])
   \<and> (\<exists>c1 c2.
         fst (preprocessMessageValuesH sampleEnv ''Total {part}.'' (Some 0) 8 copiesStore)
           = Done (Some c1)
         \<and> fst (preprocessMessageValuesH sampleEnv ''Total {part}.'' (Some 0) 8
                  (snd (preprocessMessageValuesH sampleEnv ''Total {part}.'' (Some 0) 8 copiesStore)))
           = Done (Some c2)
         \<and> 0 < c1 \<and> 0 < c2
         \<and> readRecord 8
             (snd (preprocessMessageValuesH sampleEnv ''Total {part}.'' (Some 0) 8
                  (snd (preprocessMessageValuesH sampleEnv ''Total {part}.'' (Some 0) 8 copiesStore))))
             (Some c2) = Some (Some [(''part'', JStr ''audits/a.js!#title#0'')]))
   \<and> fst (resolvePassesH sampleEnv nestedState 8 [(1, ''en''), (2, ''de'')] copiesStore)
       = [Done (), Done ()]
   \<and> readRecord 8 (snd (resolvePassesH sampleEnv nestedState 8 [(1, ''en''), (2, ''de'')] copiesStore))
       (Some 0) = Some (Some [(''part'', JStr ''audits/a.js!#title#0'')])"
proof -
  define vs where "vs = [(''part'', JStr ''audits/a.js!#title#0'')]"
  define p1 where "p1 = preprocessMessageValuesH sampleEnv ''Total {part}.'' (Some 0) 8 copiesStore"
  define p2 where "p2 = preprocessMessageValuesH sampleEnv ''Total {part}.'' (Some 0) 8 (snd p1)"
  have c0: "closedIn copiesStore {0}"
    by (simp add: closedIn_def copiesStore_def refsOf_def entriesH_def)
  have c1: "closedIn copiesStore {1}"
    by (simp add: closedIn_def copiesStore_def refsOf_def entriesH_def)
  have c2: "closedIn copiesStore {2}"
    by (simp add: closedIn_def copiesStore_def refsOf_def entriesH_def)
  have s: "separateTrees copiesStore {0} [(1, {1}), (2, {2})]"
    using c1 c2 by simp
  have v: "readVal 8 copiesStore (HRef 0) = Some (JObj vs)"
    unfolding vs_def by code_simp
  have pv: "preprocessMessageValues sampleEnv ''Total {part}.'' (Some vs) = Inr (Some vs)"
    unfolding vs_def by code_simp
  have d: "fst (resolvePassesH sampleEnv nestedState 8 [(1, ''en''), (2, ''de'')] copiesStore)
           = [Done (), Done ()]"
    by code_simp
  have r: "readRecord 8 copiesStore (Some 0) = Some (Some vs)"
    unfolding vs_def by code_simp
  note T = stored_values_unchanged [OF s c0 v, of sampleEnv "''Total {part}.''" None 0 "[]"
      nestedState "[''en'', ''de'']" 8]
  from T have "let q1 = preprocessMessageValuesH sampleEnv ''Total {part}.'' (Some 0) 8 copiesStore;
                 q2 = preprocessMessageValuesH sampleEnv ''Total {part}.'' (Some 0) 8 (snd q1)
             in readVal 8 (snd q2) (HRef 0) = Some (JObj vs)
                \<and> (case preprocessMessageValues sampleEnv ''Total {part}.'' (Some vs) of
                      Inl e \<Rightarrow> fst q1 = Raised e \<and> fst q2 = Raised e
                    | Inr out \<Rightarrow>
                        (\<exists>c1 c2. fst q1 = Done (Some c1) \<and> fst q2 = Done (Some c2)
                           \<and> 0 < c1 \<and> 0 < c2
                           \<and> readRecord 8 (snd q1) (Some c1) = Some out
                           \<and> readRecord 8 (snd q2) (Some c1) = Some out
                           \<and> readRecord 8 (snd q2) (Some c2) = Some out))"
    by (elim conjE)
  then have tw: "\<exists>c1 c2. fst p1 = Done (Some c1) \<and> fst p2 = Done (Some c2) \<and> 0 < c1 \<and> 0 < c2
                   \<and> readRecord 8 (snd p2) (Some c2) = Some (Some vs)"
    unfolding Let_def p1_def [symmetric] p2_def [symmetric] pv by auto
  from T have "\<forall>b\<in>{0}. readRecord 8
          (snd (resolvePassesH sampleEnv nestedState 8 (zip (map fst [(1, {1}), (2, {2::nat})]) [''en'', ''de''])
                 copiesStore)) (Some b) = readRecord 8 copiesStore (Some b)"
    by (elim conjE)
  then have k: "readRecord 8 (snd (resolvePassesH sampleEnv nestedState 8 [(1, ''en''), (2, ''de'')] copiesStore))
          (Some 0) = Some (Some vs)"
    using r by simp
  from s c0 v pv tw d k show ?thesis
    unfolding p2_def p1_def vs_def by (intro conjI)
qed

text \<open>
  Without that: the values object of the record under \<^verbatim>\<open>audits/a.js!#summary\<close> holds
  a token. A second pass over the report that a first pass has resolved reaches it
  through the audit log the first pass attached, at
  \<^verbatim>\<open>localeLog['audits/a.js!#summary'].occurrences[0].values\<close>, and writes the message
  for the token into it. So does a single pass over a report that holds the values
  object itself.
\<close>

theorem resolved_report_shares_stored_values:
  "map usage_values (recordedUsages nestedState ''audits/a.js!#summary'') = [Some 0]
   \<and> readRecord 8 copiesStore (Some 0) = Some (Some [(''part'', JStr ''audits/a.js!#title#0'')])
   \<and> fst (resolvePassesH sampleEnv nestedState 8 [(1, ''en''), (1, ''de'')] copiesStore)
       = [Done (), Done ()]
   \<and> readRecord 8 (snd (resolvePassesH sampleEnv nestedState 8 [(1, ''en''), (1, ''de'')] copiesStore))
       (Some 0) = Some (Some [(''part'', JStr ''de: Title'')])
   \<and> fst (replaceLocaleStringReferencesH sampleEnv nestedState 8 1 ''en'' sharedStore) = Done ()
   \<and> readRecord 8 (snd (replaceLocaleStringReferencesH sampleEnv nestedState 8 1 ''en'' sharedStore))
       (Some 0) = Some (Some [(''part'', JStr ''en: Title'')])"
  by code_simp

lemma timeInMs_not_index: "\<not> isArrayIndex ''timeInMs''"
  by (simp add: isArrayIndex_def isDigit_def)

text \<open>
  C3, as the claim has it, fails. When the values hold nothing under the id of a
  \<^verbatim>\<open>milliseconds\<close> placeholder, the preprocessor writes \<^verbatim>\<open>NaN\<close> under that id, and the
  mapping it returns has a key the values did not have. When an id stands in two
  placeholders styled \<^verbatim>\<open>bytes\<close>, its entry is divided by 1024 twice; when it stands
  in one styled \<^verbatim>\<open>bytes\<close> and one styled \<^verbatim>\<open>milliseconds\<close>, its entry is rounded
  and then divided.
\<close>

theorem missing_or_repeated_id:
  "preprocessMessageValues sampleEnv (''{timeInMs, number, milliseconds}'' @ [CHR 0xA0] @ ''ms'')
     (Some [(''other'', JNum (Fin 1))])
   = Inr (Some [(''other'', JNum (Fin 1)), (''timeInMs'', JNum NaN)])
   \<and> preprocessMessageValues twiceEnv ''{size, number, bytes} KB of {size, number, bytes} KB''
       (Some [(''size'', JNum (Fin 1048576))])
     = Inr (Some [(''size'', JNum (Fin 1))])
   \<and> preprocessMessageValues twiceEnv ''{size, number, bytes} KB in {size, number, milliseconds} ms''
       (Some [(''size'', JNum (Fin 2048))])
     = Inr (Some [(''size'', JNum (Fin (1025 / 512)))])"
proof -
  have a: "preprocessMessageValues sampleEnv (''{timeInMs, number, milliseconds}'' @ [CHR 0xA0] @ ''ms'')
     (Some [(''other'', JNum (Fin 1))])
   = Inr (Some [(''other'', JNum (Fin 1)), (''timeInMs'', JNum NaN)])"
    by (simp add: preprocessMessageValues_def sampleEnv_def jsonCloneObj_def hasStyle_def
        roundMilliseconds_def objGet_def objSet_def timeInMs_not_index toNumber_def numDiv_def
        mathRound_def numMul_def)
  have b: "preprocessMessageValues twiceEnv ''{size, number, bytes} KB of {size, number, bytes} KB''
       (Some [(''size'', JNum (Fin 1048576))])
     = Inr (Some [(''size'', JNum (Fin 1))])"
    by (simp add: preprocessMessageValues_def twiceEnv_def sampleEnv_def jsonCloneObj_def
        hasStyle_def bytesToKB_def objGet_def objSet_def toNumber_def numDiv_def)
  have c: "preprocessMessageValues twiceEnv ''{size, number, bytes} KB in {size, number, milliseconds} ms''
       (Some [(''size'', JNum (Fin 2048))])
     = Inr (Some [(''size'', JNum (Fin (1025 / 512)))])"
    by (simp add: preprocessMessageValues_def twiceEnv_def sampleEnv_def jsonCloneObj_def
        hasStyle_def bytesToKB_def roundMilliseconds_def objGet_def objSet_def toNumber_def
        numDiv_def mathRound_def numMul_def)
  from a b c show ?thesis by (intro conjI)
qed

lemma roundToTen_1234: "roundToTen 1234 = 1230"
  by (simp add: roundToTen_def)

lemma sample_parse_both:
  "MessageParser_parse sampleEnv
     ''{wastedBytes, number, bytes} KB in {timeInMs, number, milliseconds} ms'' =
   Inr [ArgumentElement ''wastedBytes'' (Some (ArgFormat (Some ''bytes''))),
        MessageTextElement '' KB in '',
        ArgumentElement ''timeInMs'' (Some (ArgFormat (Some ''milliseconds''))),
        MessageTextElement '' ms'']"
  by (simp add: sampleEnv_def)

lemma sample_styled:
  "styledIds ''milliseconds''
     [ArgumentElement ''wastedBytes'' (Some (ArgFormat (Some ''bytes''))),
      MessageTextElement '' KB in '',
      ArgumentElement ''timeInMs'' (Some (ArgFormat (Some ''milliseconds''))),
      MessageTextElement '' ms''] = [''timeInMs'']"
  "styledIds ''bytes''
     [ArgumentElement ''wastedBytes'' (Some (ArgFormat (Some ''bytes''))),
      MessageTextElement '' KB in '',
      ArgumentElement ''timeInMs'' (Some (ArgFormat (Some ''milliseconds''))),
      MessageTextElement '' ms''] = [''wastedBytes'']"
  by (simp_all add: styledIds_def hasStyle_def)

lemma sample_values_json:
  "jsonCloneObj [(''timeInMs'', JNum (Fin 1234)), (''wastedBytes'', JNum (Fin 2048)),
                 (''label'', JStr ''total'')] =
     [(''timeInMs'', JNum (Fin 1234)), (''wastedBytes'', JNum (Fin 2048)),
      (''label'', JStr ''total'')]"
  by (simp add: jsonCloneObj_def)


lemma binary53_int: "\<bar>j\<bar> < 2 ^ 53 \<Longrightarrow> binary53 L (of_int j)"
  unfolding binary53_def by (intro exI [of _ j] exI [of _ 0]) simp

theorem preprocess_values_witness:
  "MessageParser_parse sampleEnv ''{wastedBytes, number, bytes} KB in {timeInMs, number, milliseconds} ms''
     = Inr [ArgumentElement ''wastedBytes'' (Some (ArgFormat (Some ''bytes''))),
            MessageTextElement '' KB in '',
            ArgumentElement ''timeInMs'' (Some (ArgFormat (Some ''milliseconds''))),
            MessageTextElement '' ms'']
   \<and> isDouble 1234 \<and> \<bar>1234 :: real\<bar> < 2 ^ 53 \<and> binary53 1064 2048
   \<and> (\<exists>out. preprocessMessageValues sampleEnv
               ''{wastedBytes, number, bytes} KB in {timeInMs, number, milliseconds} ms''
               (Some [(''timeInMs'', JNum (Fin 1234)), (''wastedBytes'', JNum (Fin 2048)),
                      (''label'', JStr ''total'')]) = Inr (Some out)
          \<and> map fst out = [''timeInMs'', ''wastedBytes'', ''label'']
          \<and> objGet out ''timeInMs'' = Some (JNum (Fin 1230))
          \<and> objGet out ''wastedBytes'' = Some (JNum (Fin 2))
          \<and> objGet out ''label'' = Some (JStr ''total''))"
proof -
  define els where "els = [ArgumentElement ''wastedBytes'' (Some (ArgFormat (Some ''bytes''))),
            MessageTextElement '' KB in '',
            ArgumentElement ''timeInMs'' (Some (ArgFormat (Some ''milliseconds''))),
            MessageTextElement '' ms'']"
  define vs where "vs = [(''timeInMs'', JNum (Fin 1234)), (''wastedBytes'', JNum (Fin 2048)),
                      (''label'', JStr ''total'')]"
  define msg where "msg = ''{wastedBytes, number, bytes} KB in {timeInMs, number, milliseconds} ms''"
  have p: "MessageParser_parse sampleEnv msg = Inr els"
    unfolding msg_def els_def by (rule sample_parse_both)
  have m: "styledIds ''milliseconds'' els = [''timeInMs'']"
    unfolding els_def by (rule sample_styled(1))
  have b: "styledIds ''bytes'' els = [''wastedBytes'']"
    unfolding els_def by (rule sample_styled(2))
  have c: "jsonCloneObj vs = vs"
    unfolding vs_def by (rule sample_values_json)
  have d1: "distinct (map fst vs)" by (simp add: vs_def)
  have d2: "distinct (styledIds ''bytes'' els)" by (simp add: b)
  have d3: "set (styledIds ''milliseconds'' els) \<inter> set (styledIds ''bytes'' els) = {}"
    by (simp add: m b)
  have g1: "objGet vs ''timeInMs'' = Some (JNum (Fin 1234))" by (simp add: vs_def objGet_def)
  have g2: "objGet vs ''wastedBytes'' = Some (JNum (Fin 2048))" by (simp add: vs_def objGet_def)
  have g3: "objGet vs ''label'' = Some (JStr ''total'')" by (simp add: vs_def objGet_def)
  have n1: "isDouble 1234"
    using binary53_int [of 1234 1074] by (simp add: isDouble_def)
  have n2: "\<bar>1234 :: real\<bar> < 2 ^ 53" by simp
  have n3: "binary53 1064 2048"
    using binary53_int [of 2048 1064] by simp
  have f1: "\<forall>k \<in> set (styledIds ''milliseconds'' els).
             \<exists>x. objGet vs k = Some (JNum (Fin x)) \<and> isDouble x \<and> \<bar>x\<bar> < 2 ^ 53"
    using g1 n1 n2 by (simp add: m)
  have f2: "\<forall>k \<in> set (styledIds ''bytes'' els).
             \<exists>x. objGet vs k = Some (JNum (Fin x)) \<and> binary53 1064 x"
    using g2 n3 by (simp add: b)
  note T = preprocess_values [OF p d1 d2 d3 f1 f2, THEN conjunct2, THEN conjunct1]
  then obtain out where
    o: "preprocessMessageValues sampleEnv msg (Some vs) = Inr (Some out)
        \<and> map fst out = map fst (jsonCloneObj vs)
        \<and> (\<forall>k x. k \<in> set (styledIds ''milliseconds'' els) \<and> objGet vs k = Some (JNum (Fin x))
                  \<longrightarrow> objGet out k = Some (JNum (Fin (roundToTen x)))
                      \<and> (\<forall>r. machineRoundToTen x r \<longrightarrow> r = roundToTen x))
        \<and> (\<forall>k x. k \<in> set (styledIds ''bytes'' els) \<and> objGet vs k = Some (JNum (Fin x))
                  \<longrightarrow> objGet out k = Some (JNum (Fin (x / 1024)))
                      \<and> (\<forall>r. nearestDouble (x / 1024) r \<longrightarrow> r = x / 1024))
        \<and> (\<forall>k. k \<notin> set (styledIds ''milliseconds'' els @ styledIds ''bytes'' els)
                  \<longrightarrow> objGet out k = objGet (jsonCloneObj vs) k)"
    by (rule exE)
  from o have o1: "preprocessMessageValues sampleEnv msg (Some vs) = Inr (Some out)"
    by (rule conjunct1)
  from o have "map fst out = map fst (jsonCloneObj vs)" by (elim conjE)
  then have k: "map fst out = [''timeInMs'', ''wastedBytes'', ''label'']"
    unfolding c by (simp add: vs_def)
  from o have "\<forall>k x. k \<in> set (styledIds ''milliseconds'' els) \<and> objGet vs k = Some (JNum (Fin x))
                  \<longrightarrow> objGet out k = Some (JNum (Fin (roundToTen x)))
                      \<and> (\<forall>r. machineRoundToTen x r \<longrightarrow> r = roundToTen x)" by (elim conjE)
  from this [rule_format, of "''timeInMs''" 1234, THEN conjunct1] g1
  have t: "objGet out ''timeInMs'' = Some (JNum (Fin 1230))"
    by (simp add: m roundToTen_1234)
  from o have "\<forall>k x. k \<in> set (styledIds ''bytes'' els) \<and> objGet vs k = Some (JNum (Fin x))
                  \<longrightarrow> objGet out k = Some (JNum (Fin (x / 1024)))
                      \<and> (\<forall>r. nearestDouble (x / 1024) r \<longrightarrow> r = x / 1024)" by (elim conjE)
  from this [rule_format, of "''wastedBytes''" 2048, THEN conjunct1] g2
  have w: "objGet out ''wastedBytes'' = Some (JNum (Fin 2))"
    by (simp add: b)
  from o have "\<forall>k. k \<notin> set (styledIds ''milliseconds'' els @ styledIds ''bytes'' els)
                  \<longrightarrow> objGet out k = objGet (jsonCloneObj vs) k" by (elim conjE)
  from this [rule_format, of "''label''"] g3
  have l: "objGet out ''label'' = Some (JStr ''total'')"
    by (simp add: m b c)
  have "\<exists>out. preprocessMessageValues sampleEnv msg (Some vs) = Inr (Some out)
          \<and> map fst out = [''timeInMs'', ''wastedBytes'', ''label'']
          \<and> objGet out ''timeInMs'' = Some (JNum (Fin 1230))
          \<and> objGet out ''wastedBytes'' = Some (JNum (Fin 2))
          \<and> objGet out ''label'' = Some (JStr ''total'')"
    using o1 k t w l by (intro exI [of _ out] conjI)
  with p n1 n2 n3 show ?thesis unfolding msg_def vs_def els_def by (intro conjI)
qed

subsection \<open>The test for a token\<close>

lemma takeWhile_append_all:
  "list_all P xs \<Longrightarrow> takeWhile P (xs @ ys) = xs @ takeWhile P ys"
  by (induction xs) auto

text \<open>The test of the resolver, read off the regular expression
  \<^verbatim>\<open>/.*!#.*#\d+$/\<close>: somewhere a \<^verbatim>\<open>!#\<close>, then characters that are no line
  terminators, then \<^verbatim>\<open>#\<close> and one digit or more up to the end of the string.\<close>

lemma testToken_iff:
  "testToken s =
     (\<exists>pre b d. s = pre @ ''!#'' @ b @ ''#'' @ d
        \<and> list_all (\<lambda>c. \<not> isLineTerminator c) b \<and> d \<noteq> [] \<and> list_all isDigit d)"
proof
  assume "testToken s"
  then obtain k d where m: "matchUsage s = Some (k, d)" and h: "hasBangHash k"
    by (auto simp: testToken_def split: option.splits)
  from matchUsage_Some [OF m] obtain pre where
    s: "s = pre @ k @ ''#'' @ d" "d \<noteq> []" "list_all isDigit d"
       "list_all (\<lambda>c. \<not> isLineTerminator c) k" by blast
  from hasBangHash_split [OF h] obtain a b where k: "k = a @ ''!#'' @ b" by blast
  with s(4) have "list_all (\<lambda>c. \<not> isLineTerminator c) b" by simp
  moreover from s(1) k have "s = (pre @ a) @ ''!#'' @ b @ ''#'' @ d" by simp
  ultimately show "\<exists>pre b d. s = pre @ ''!#'' @ b @ ''#'' @ d
        \<and> list_all (\<lambda>c. \<not> isLineTerminator c) b \<and> d \<noteq> [] \<and> list_all isDigit d"
    using s(2,3) by blast
next
  assume "\<exists>pre b d. s = pre @ ''!#'' @ b @ ''#'' @ d
        \<and> list_all (\<lambda>c. \<not> isLineTerminator c) b \<and> d \<noteq> [] \<and> list_all isDigit d"
  then obtain pre b d where s: "s = pre @ ''!#'' @ b @ ''#'' @ d"
    and b: "list_all (\<lambda>c. \<not> isLineTerminator c) b" and d: "d \<noteq> []" "list_all isDigit d"
    by blast
  let ?front = "pre @ ''!#'' @ b"
  have r: "rev s = rev d @ CHR ''#'' # rev ?front" by (simp add: s)
  have dg: "list_all isDigit (rev d)" using d(2) by (simp add: list_all_iff)
  have t: "takeWhile isDigit (rev s) = rev d"
    unfolding r by (rule takeWhile_all [OF dg hash_not_digit])
  have dr: "dropWhile isDigit (rev s) = CHR ''#'' # rev ?front"
    unfolding r by (rule dropWhile_all [OF dg hash_not_digit])
  have nl: "list_all (\<lambda>c. \<not> isLineTerminator c) (rev b @ ''#!'')"
    using b by (simp add: list_all_iff isLineTerminator_def)
  have "rev ?front = (rev b @ ''#!'') @ rev pre" by simp
  then have "takeWhile (\<lambda>c. \<not> isLineTerminator c) (rev ?front) =
               (rev b @ ''#!'') @ takeWhile (\<lambda>c. \<not> isLineTerminator c) (rev pre)"
    using takeWhile_append_all [OF nl] by simp
  then have k: "rev (takeWhile (\<lambda>c. \<not> isLineTerminator c) (rev ?front)) =
               rev (takeWhile (\<lambda>c. \<not> isLineTerminator c) (rev pre)) @ ''!#'' @ b"
    by simp
  have fr: "rev (CHR ''#'' # rev ?front) = ?front @ [CHR ''#'']" by simp
  have m: "matchUsage s =
             Some (rev (takeWhile (\<lambda>c. \<not> isLineTerminator c) (rev pre)) @ ''!#'' @ b, d)"
    unfolding matchUsage_def t dr fr Let_def butlast_snoc last_snoc k
    using d(1) by simp
  show "testToken s"
    unfolding testToken_def m using hasBangHash_append by simp
qed

end
